theory Spec2Isabelle
  imports Main "HOL-Library.Multiset"
begin

section \<open>Errors\<close>

text \<open>
  A JavaScript exception is a value: \<open>TypeError\<close> is what the engine raises when a property
  of \<open>undefined\<close> or \<open>null\<close> is read, \<open>Error msg\<close> is \<open>throw new Error(msg)\<close>.
\<close>

datatype error = TypeError | Error string

section \<open>Ranges, highlights and the state of the cursor\<close>

text \<open>
  Modelled from the spec: the classes \<open>TextRange\<close>, \<open>Highlight\<close>, \<open>HighlightMarkers\<close> and
  \<open>HighlightDecorator\<close> are not among the sources; what the renderer and the cursor read of
  them is declared here. A range descriptor holds a reference to a Marker object and an offset into its node; a
  range is two descriptors (\<open>start\<close> and \<open>end\<close>, inclusive); a highlight has a range and the
  wrapper elements that render it. Elements are referred to by their identity.
\<close>

record RangeDescriptor =
  marker :: nat
  offset :: int

record TextRange =
  range_start :: RangeDescriptor
  range_end :: RangeDescriptor

record Highlight =
  hrange :: TextRange
  elements :: "nat list"

record HighlightMarker =
  highlight :: Highlight

text \<open>
  The registry the cursor consumes: \<open>find(index, queries)\<close> resolves a virtual index against
  the highlights of the selected query sets (all of them for \<open>null\<close>), \<open>null\<close> when there is
  none; \<open>calculateTotalActive(queries)\<close> counts them. Both are parameters of the cursor.
\<close>

record HighlightMarkers =
  find_marker :: "int \<Rightarrow> string list option \<Rightarrow> HighlightMarker option"
  calculateTotalActive :: "string list option \<Rightarrow> int"

text \<open>
  What the cursor does to its collaborators, in order: the lookups in the registry, the
  calls of the decorator, of the \<open>scrollTo\<close> callback and of \<open>scrollIntoView\<close>, the line
  written by \<open>console.error\<close>, and the events emitted.
\<close>

datatype IterableQueries = Single string | Many "string list"

datatype event = Update int int | Clear | SetIterable "IterableQueries option"

datatype effect =
    Find int "string list option"
  | SetActive Highlight
  | SetInactive Highlight
  | ScrollTo nat
  | ScrollIntoView nat
  | ConsoleError
  | Emit event

text \<open>A callback returns or throws.\<close>

datatype outcome = Returns | Throws

record Cursor =
  markers :: HighlightMarkers
  index :: int
  active :: "Highlight option"
  iterableQueries :: "string list option"
  total :: int
  trace :: "effect list"

section \<open>The document tree\<close>

text \<open>
  A text node never has its \<open>nodeValue\<close> assigned by this program (a split creates new text
  nodes), so a reference to a text node is its identity together with its content. Elements
  are mutable (their child lists change), so the tree itself is part of the state.
\<close>

datatype text_node = TextNode (nid: nat) (nodeValue: string)

datatype dom = Text text_node | Element nat string "dom list" | Other nat

fun node_id :: "dom \<Rightarrow> nat" where
  "node_id (Text t) = nid t"
| "node_id (Element n tag ch) = n"
| "node_id (Other n) = n"

text \<open>Every node of a tree, in document (pre-)order.\<close>

fun ids :: "dom \<Rightarrow> nat list" where
  "ids (Text t) = [nid t]"
| "ids (Element n tag ch) = n # concat (map ids ch)"
| "ids (Other n) = [n]"

text \<open>The nodes below the top: those whose \<open>parentNode\<close> is a node of the tree.\<close>

fun kids :: "dom \<Rightarrow> nat list" where
  "kids (Element n tag ch) = concat (map ids ch)"
| "kids (Text t) = []"
| "kids (Other n) = []"

text \<open>The text nodes of a tree, in document order.\<close>

fun leaves :: "dom \<Rightarrow> text_node list" where
  "leaves (Text t) = [t]"
| "leaves (Element n tag ch) = concat (map leaves ch)"
| "leaves (Other n) = []"

text \<open>
  \<open>replace_child r g\<close> rewrites the child list that holds the node \<open>r\<close>: the child \<open>c\<close> with
  that identity is replaced by the nodes \<open>g c\<close>.
\<close>

fun replace_child :: "nat \<Rightarrow> (dom \<Rightarrow> dom list) \<Rightarrow> dom \<Rightarrow> dom" where
  "replace_child r g (Element n tag ch) =
     Element n tag (concat (map (\<lambda>c. if node_id c = r then g c else [replace_child r g c]) ch))"
| "replace_child r g (Text t) = Text t"
| "replace_child r g (Other n) = Other n"

text \<open>
  Modelled from the spec: the module \<open>dom\<close> (\<open>dom.insertBefore\<close>, \<open>dom.insertAfter\<close>) is not
  among the sources. \<open>insertBefore(node, ref)\<close> inserts the new \<open>node\<close> before \<open>ref\<close> in the
  child list of \<open>ref.parentNode\<close>, \<open>insertAfter(node, ref)\<close> right after it; both return
  \<open>node\<close>. A \<open>ref\<close> with no parent makes \<open>ref.parentNode\<close> \<open>null\<close>, and the call a TypeError.
  The inserted node is always a fresh one here, so it has no old position to leave.
\<close>

definition insertBefore :: "dom \<Rightarrow> nat \<Rightarrow> dom \<Rightarrow> error + dom" where
  "insertBefore new r t =
     (if r \<in> set (kids t) then Inr (replace_child r (\<lambda>c. [new, c]) t) else Inl TypeError)"

definition insertAfter :: "dom \<Rightarrow> nat \<Rightarrow> dom \<Rightarrow> error + dom" where
  "insertAfter new r t =
     (if r \<in> set (kids t) then Inr (replace_child r (\<lambda>c. [c, new]) t) else Inl TypeError)"

text \<open>\<open>old.parentNode.removeChild(old)\<close>, a TypeError when \<open>old\<close> has no parent.\<close>

definition removeChild :: "nat \<Rightarrow> dom \<Rightarrow> error + dom" where
  "removeChild r t =
     (if r \<in> set (kids t) then Inr (replace_child r (\<lambda>c. []) t) else Inl TypeError)"

text \<open>
  \<open>span.appendChild(node)\<close>: the node leaves the child list it is in and becomes the last
  child of \<open>span\<close>. \<open>add_child\<close> is the second half.
\<close>

fun add_child :: "nat \<Rightarrow> dom \<Rightarrow> dom \<Rightarrow> dom" where
  "add_child p c (Element n tag ch) =
     (if n = p then Element n tag (ch @ [c]) else Element n tag (map (add_child p c) ch))"
| "add_child p c (Text t) = Text t"
| "add_child p c (Other n) = Other n"

definition appendChild :: "nat \<Rightarrow> dom \<Rightarrow> dom \<Rightarrow> dom" where
  "appendChild p c t = add_child p c (replace_child (node_id c) (\<lambda>c. []) t)"

text \<open>The node with a given identity, as the tree has it, and the text below a node.\<close>

fun find_node :: "nat \<Rightarrow> dom \<Rightarrow> dom option"
  and find_forest :: "nat \<Rightarrow> dom list \<Rightarrow> dom option"
where
  "find_node p (Text t) = (if nid t = p then Some (Text t) else None)"
| "find_node p (Element n tag ch) = (if n = p then Some (Element n tag ch) else find_forest p ch)"
| "find_node p (Other n) = (if n = p then Some (Other n) else None)"
| "find_forest p [] = None"
| "find_forest p (c # cs) = (case find_node p c of Some d \<Rightarrow> Some d | None \<Rightarrow> find_forest p cs)"

fun textContent :: "dom \<Rightarrow> string" where
  "textContent (Text t) = nodeValue t"
| "textContent (Element n tag ch) = concat (map textContent ch)"
| "textContent (Other n) = []"

text \<open>
  \<open>String.prototype.substr(start, length)\<close> and \<open>substr(start)\<close>: a negative \<open>start\<close> counts
  from the end, a negative \<open>length\<close> is 0, and both are clipped to the string.
\<close>

definition substr :: "string \<Rightarrow> int \<Rightarrow> int \<Rightarrow> string" where
  "substr s start len =
     (let size = int (length s);
          st = (if start < 0 then max (size + start) 0 else min start size);
          n = min (max len 0) (size - st)
      in take (nat n) (drop (nat st) s))"

definition substr_from :: "string \<Rightarrow> int \<Rightarrow> string" where
  "substr_from s start =
     (let size = int (length s);
          st = (if start < 0 then max (size + start) 0 else min start size)
      in drop (nat st) s)"

text \<open>
  \<open>Array.prototype.splice(index, 0, x)\<close>: insert \<open>x\<close> at \<open>index\<close>; a negative \<open>index\<close> counts
  from the end, and the position is clipped to the array.
\<close>

definition splice_insert :: "int \<Rightarrow> 'a \<Rightarrow> 'a list \<Rightarrow> 'a list" where
  "splice_insert i x xs =
     (let n = int (length xs);
          k = (if i < 0 then max (n + i) 0 else min i n)
      in take (nat k) xs @ [x] @ drop (nat k) xs)"

section \<open>TextContent.js\<close>

definition IGNORE_TAGNAMES :: "string set" where
  "IGNORE_TAGNAMES = {''HTML'', ''HEAD'', ''META'', ''SCRIPT'', ''STYLE'', ''CANVAS'',
     ''IFRAME'', ''SVG'', ''AUDIO'', ''VIDEO''}"

record Marker =
  node :: text_node
  offset :: int

text \<open>
  The markers array holds references to Marker objects, and \<open>truncate\<close> mutates the Marker it
  is handed: the objects live in \<open>heap\<close>, the array \<open>markers\<close> holds their addresses.
  \<open>next_marker\<close> and \<open>next_node\<close> are the allocators of Marker objects and of DOM nodes.
\<close>

record TextContent =
  root :: dom
  "text" :: string
  markers :: "nat list"
  heap :: "nat \<Rightarrow> Marker"
  next_marker :: nat
  next_node :: nat

text \<open>
  The renderer (\<open>HighlightRenderer.js\<close>) holds the text index and the decorator. The
  decorator is an absent class with no state the renderer reads: the calls of
  \<open>decorate(elements, highlight)\<close> are kept, in order.
\<close>

record HighlightRenderer =
  content :: TextContent
  decorated :: "(nat list \<times> Highlight) list"

text \<open>Reading \<open>xs[i]\<close>: \<open>undefined\<close> (here \<open>None\<close>) outside the array.\<close>

definition at_index :: "'a list \<Rightarrow> int \<Rightarrow> 'a option" where
  "at_index xs i = (if 0 \<le> i \<and> i < int (length xs) then Some (xs ! nat i) else None)"

definition marker_at :: "TextContent \<Rightarrow> int \<Rightarrow> Marker option" where
  "marker_at tc i = map_option (heap tc) (at_index (markers tc) i)"

text \<open>The \<open>while (min < max)\<close> loop of \<open>indexOf\<close>; it returns the final \<open>min\<close>.\<close>

function indexOf_loop :: "TextContent \<Rightarrow> int \<Rightarrow> int \<Rightarrow> int \<Rightarrow> error + int" where
  "indexOf_loop tc ofs lo hi =
     (if lo < hi then
        (case marker_at tc ((lo + hi) div 2) of
           None \<Rightarrow> Inl TypeError
         | Some m \<Rightarrow>
             if offset m < ofs then indexOf_loop tc ofs ((lo + hi) div 2 + 1) hi
             else indexOf_loop tc ofs lo ((lo + hi) div 2))
      else Inr lo)"
  by pat_completeness auto
termination
  by (relation "measure (\<lambda>(tc, ofs, lo, hi). nat (hi - lo))") auto

declare indexOf_loop.simps [simp del]

definition indexOf :: "TextContent \<Rightarrow> int \<Rightarrow> error + int" where
  "indexOf tc ofs =
     (case indexOf_loop tc ofs 0 (int (length (markers tc)) - 1) of
        Inl e \<Rightarrow> Inl e
      | Inr lo \<Rightarrow>
          (case marker_at tc lo of
             None \<Rightarrow> Inl TypeError
           | Some m \<Rightarrow>
               if offset m \<le> ofs then Inr lo
               else if lo = 0 then Inl (Error ''Invalid offset of text content state'')
               else Inr (lo - 1)))"

text \<open>
  \<open>new TextContent(root)\<close>. No Marker exists yet; the node allocator starts above every node
  of the document, as a node created later is a new object.
\<close>

definition constructor :: "dom \<Rightarrow> TextContent" where
  "constructor r =
     \<lparr>root = r, text = [], markers = [],
      heap = (\<lambda>_. \<lparr>node = TextNode 0 [], offset = 0\<rparr>),
      next_marker = 0, next_node = Suc (fold max (ids r) 0)\<rparr>"

definition dispose :: "TextContent \<Rightarrow> TextContent" where
  "dispose tc = tc\<lparr>text := [], markers := []\<rparr>"

text \<open>
  \<open>_visit(node, offset)\<close>. The first argument is \<open>node.parentElement.tagName\<close>, handed down by
  the traversal; \<open>visit_children\<close> is the \<open>for\<close> loop over \<open>node.childNodes\<close>. The state and
  the running offset travel together.
\<close>

fun visit :: "string \<Rightarrow> dom \<Rightarrow> TextContent \<times> int \<Rightarrow> TextContent \<times> int"
  and visit_children :: "string \<Rightarrow> dom list \<Rightarrow> TextContent \<times> int \<Rightarrow> TextContent \<times> int"
where
  "visit ptag (Text t) (tc, ofs) =
     (if length (nodeValue t) < 1 then (tc, ofs)
      else
        let r = next_marker tc;
            tc1 = tc\<lparr>markers := markers tc @ [r],
                     heap := (heap tc)(r := \<lparr>node = t, offset = ofs\<rparr>),
                     next_marker := Suc r\<rparr>;
            tc2 = tc1\<lparr>text := text tc1 @
                     (if ptag \<in> IGNORE_TAGNAMES then replicate (length (nodeValue t)) (CHR '' '')
                      else nodeValue t)\<rparr>
        in (tc2, ofs + int (length (nodeValue t))))"
| "visit ptag (Element n tag ch) (tc, ofs) = visit_children tag ch (tc, ofs)"
| "visit ptag (Other n) (tc, ofs) = (tc, ofs)"
| "visit_children tag [] acc = acc"
| "visit_children tag (c # cs) acc = visit_children tag cs (visit tag c acc)"

text \<open>
  \<open>parse()\<close>; \<open>dev\<close> is \<open>process.env.NODE_ENV === "development"\<close>. The root is an HTMLElement,
  so the tag handed to the top call is never read.
\<close>

definition parse :: "bool \<Rightarrow> TextContent \<Rightarrow> TextContent \<times> (error + unit)" where
  "parse dev tc =
     (case visit [] (root tc) (tc\<lparr>text := [], markers := []\<rparr>, 0) of
        (tc1, ofs) \<Rightarrow>
          if dev \<and> length (markers tc1) \<noteq> 0 then
            (let m = heap tc1 (last (markers tc1)) in
             if ofs - int (length (nodeValue (node m))) \<noteq> offset m
             then (tc1, Inl (Error ''Invalid state detected: offset mismatch''))
             else (tc1, Inr ()))
          else (tc1, Inr ()))"

text \<open>\<open>assert()\<close>: the loop over the markers with the expected offset.\<close>

fun assert_loop :: "Marker list \<Rightarrow> int \<Rightarrow> error + unit" where
  "assert_loop [] ofs = Inr ()"
| "assert_loop (m # ms) ofs =
     (if offset m \<noteq> ofs then Inl (Error ''Halting due to invalid offset'')
      else assert_loop ms (ofs + int (length (nodeValue (node m)))))"

definition marker_list :: "TextContent \<Rightarrow> Marker list" where
  "marker_list tc = map (heap tc) (markers tc)"

definition assert :: "TextContent \<Rightarrow> error + unit" where
  "assert tc = assert_loop (marker_list tc) 0"

definition createTextNode :: "string \<Rightarrow> TextContent \<Rightarrow> text_node \<times> TextContent" where
  "createTextNode s tc = (TextNode (next_node tc) s, tc\<lparr>next_node := Suc (next_node tc)\<rparr>)"

text \<open>
  \<open>truncate\<close>, block by block. \<open>r\<close> is the Marker object handed in, \<open>old\<close> its node on entry
  and \<open>txt\<close> that node's text. Each block returns the state it leaves, also when it throws.

  Chars \<open>0..start - 1\<close>: the new Marker object is built (its node inserted in the tree)
  before \<open>splice\<close> runs; the result is the index, moved by one when the block ran.
\<close>

definition truncate_head ::
  "TextContent \<Rightarrow> nat \<Rightarrow> text_node \<Rightarrow> string \<Rightarrow> int \<Rightarrow> int \<Rightarrow> TextContent \<times> (error + int)" where
  "truncate_head tc r old txt idx start =
     (if start > 0 then
        (case createTextNode (substr txt 0 start) tc of
           (nd, tc1) \<Rightarrow>
             (case insertBefore (Text nd) (nid old) (root tc1) of
                Inl e \<Rightarrow> (tc1, Inl e)
              | Inr t \<Rightarrow>
                  (let m = next_marker tc1 in
                   (tc1\<lparr>root := t,
                        heap := (heap tc1)(m := \<lparr>node = nd, offset = offset (heap tc1 r)\<rparr>),
                        next_marker := Suc m,
                        markers := splice_insert idx m (markers tc1)\<rparr>,
                    Inr (idx + 1)))))
      else (tc, Inr idx))"

text \<open>Chars \<open>start..end\<close>: the Marker \<open>r\<close> itself is moved to the new node.\<close>

definition truncate_middle ::
  "TextContent \<Rightarrow> nat \<Rightarrow> string \<Rightarrow> int \<Rightarrow> int \<Rightarrow> TextContent \<times> (error + unit)" where
  "truncate_middle tc r txt start end =
     (let tc1 = tc\<lparr>heap := (heap tc)(r := (heap tc r)\<lparr>offset := offset (heap tc r) + start\<rparr>)\<rparr> in
      case createTextNode (substr txt start (end - start + 1)) tc1 of
        (nd, tc2) \<Rightarrow>
          (case insertBefore (Text nd) (nid (node (heap tc2 r))) (root tc2) of
             Inl e \<Rightarrow> (tc2, Inl e)
           | Inr t \<Rightarrow>
               (tc2\<lparr>root := t, heap := (heap tc2)(r := (heap tc2 r)\<lparr>node := nd\<rparr>)\<rparr>, Inr ())))"

text \<open>Chars \<open>end + 1..length\<close>.\<close>

definition truncate_tail ::
  "TextContent \<Rightarrow> nat \<Rightarrow> string \<Rightarrow> int \<Rightarrow> int \<Rightarrow> int \<Rightarrow> TextContent \<times> (error + unit)" where
  "truncate_tail tc r txt idx start end =
     (if end \<noteq> int (length txt) - 1 then
        (if idx \<ge> int (length (markers tc)) then (tc, Inl (Error ''Detected invalid index''))
         else
           (case createTextNode (substr_from txt (end + 1)) tc of
              (nd, tc1) \<Rightarrow>
                (case insertAfter (Text nd) (nid (node (heap tc1 r))) (root tc1) of
                   Inl e \<Rightarrow> (tc1, Inl e)
                 | Inr t \<Rightarrow>
                     (let m = next_marker tc1 in
                      (tc1\<lparr>root := t,
                           heap := (heap tc1)(m := \<lparr>node = nd,
                                     offset = offset (heap tc1 r) + end - start + 1\<rparr>),
                           next_marker := Suc m,
                           markers := splice_insert (idx + 1) m (markers tc1)\<rparr>,
                       Inr ())))))
      else (tc, Inr ()))"

definition truncate ::
  "bool \<Rightarrow> TextContent \<Rightarrow> nat \<Rightarrow> int \<Rightarrow> int \<Rightarrow> TextContent \<times> (error + int)" where
  "truncate dev tc r start end =
     (let old = node (heap tc r); txt = nodeValue old in
      case indexOf tc (offset (heap tc r)) of
        Inl e \<Rightarrow> (tc, Inl e)
      | Inr idx0 \<Rightarrow>
          if start < 0 \<or> end < 0 \<or> start > end
          then (tc, Inl (Error ''Invalid truncation parameters''))
          else if end \<ge> int (length txt) then (tc, Inl (Error ''End offset overflow''))
          else
            (case truncate_head tc r old txt idx0 start of
               (tc1, Inl e) \<Rightarrow> (tc1, Inl e)
             | (tc1, Inr idx) \<Rightarrow>
                 (case truncate_middle tc1 r txt start end of
                    (tc2, Inl e) \<Rightarrow> (tc2, Inl e)
                  | (tc2, Inr _) \<Rightarrow>
                      (case truncate_tail tc2 r txt idx start end of
                         (tc3, Inl e) \<Rightarrow> (tc3, Inl e)
                       | (tc3, Inr _) \<Rightarrow>
                           (case (if dev then assert tc3 else Inr ()) of
                              Inl e \<Rightarrow> (tc3, Inl e)
                            | Inr _ \<Rightarrow>
                                (case removeChild (nid old) (root tc3) of
                                   Inl e \<Rightarrow> (tc3, Inl e)
                                 | Inr t \<Rightarrow> (tc3\<lparr>root := t\<rparr>, Inr idx)))))))"

section \<open>HighlightRenderer.js\<close>

text \<open>
  Modelled from the spec: \<open>TextNodeVisitor.js\<close> is not among the sources. A visitor created
  at a text node walks the document in document order; each \<open>next()\<close> moves to the next text
  node and returns it, and returns \<open>null\<close> once there is none. \<open>text_nodes_after\<close> is what the
  successive calls return before \<open>null\<close>.
\<close>

definition text_nodes_after :: "text_node \<Rightarrow> dom \<Rightarrow> text_node list" where
  "text_nodes_after n r = drop 1 (dropWhile (\<lambda>t. nid t \<noteq> nid n) (leaves r))"

text \<open>
  The loop \<open>while (visitor.next() !== end) coll.push(visitor.current)\<close> over what the
  visitor returns. When the visitor runs out before it meets \<open>end\<close>, \<open>next()\<close> is \<open>null\<close> from
  then on and the loop does not end: \<open>None\<close>.
\<close>

fun collect_until :: "text_node \<Rightarrow> text_node list \<Rightarrow> text_node list option" where
  "collect_until e [] = None"
| "collect_until e (n # ns) =
     (if nid n = nid e then Some [] else map_option ((#) n) (collect_until e ns))"

text \<open>
  \<open>_createHighlightElement(node)\<close>: a new \<open>span\<close> is put before the node and the node moved
  into it. The data attribute that marks the span as a highlight is not part of the tree
  modelled here.
\<close>

definition createHighlightElement :: "text_node \<Rightarrow> TextContent \<Rightarrow> TextContent \<times> (error + nat)" where
  "createHighlightElement nd tc =
     (let span = next_node tc; tc1 = tc\<lparr>next_node := Suc span\<rparr> in
      case insertBefore (Element span ''SPAN'' []) (nid nd) (root tc1) of
        Inl e \<Rightarrow> (tc1, Inl e)
      | Inr t \<Rightarrow> (tc1\<lparr>root := appendChild span (Text nd) t\<rparr>, Inr span))"

text \<open>\<open>_surround(descr, start, end)\<close>, with \<open>None\<close> for \<open>end == null\<close>.\<close>

definition surround_range ::
  "bool \<Rightarrow> RangeDescriptor \<Rightarrow> int \<Rightarrow> int option \<Rightarrow> TextContent \<Rightarrow> TextContent \<times> (error + nat)" where
  "surround_range dev descr start end tc =
     (case truncate dev tc (marker descr) start
             (case end of
                None \<Rightarrow> int (length (nodeValue (node (heap tc (marker descr))))) - 1
              | Some e \<Rightarrow> e) of
        (tc1, Inl e) \<Rightarrow> (tc1, Inl e)
      | (tc1, Inr i) \<Rightarrow> createHighlightElement (node (heap tc1 (marker descr))) tc1)"

text \<open>\<open>_surroundWhole(node)\<close>, and the \<open>forEach\<close> over the nodes in between.\<close>

definition surroundWhole :: "text_node \<Rightarrow> TextContent \<Rightarrow> TextContent \<times> (error + nat)" where
  "surroundWhole nd tc = createHighlightElement nd tc"

fun surroundWhole_each :: "text_node list \<Rightarrow> TextContent \<Rightarrow> TextContent \<times> (error + nat list)" where
  "surroundWhole_each [] tc = (tc, Inr [])"
| "surroundWhole_each (n # ns) tc =
     (case surroundWhole n tc of
        (tc1, Inl e) \<Rightarrow> (tc1, Inl e)
      | (tc1, Inr el) \<Rightarrow>
          (case surroundWhole_each ns tc1 of
             (tc2, Inl e) \<Rightarrow> (tc2, Inl e)
           | (tc2, Inr els) \<Rightarrow> (tc2, Inr (el # els))))"

text \<open>
  Modelled from the spec: \<open>TextRange.js\<close> is not among the sources. \<open>clearStartOffset()\<close>
  clears the start offset of the range once the wrapped node is the match.
\<close>

definition clearStartOffset :: "Highlight \<Rightarrow> Highlight" where
  "clearStartOffset h =
     h\<lparr>hrange := (hrange h)\<lparr>range_start := (range_start (hrange h))\<lparr>RangeDescriptor.offset := 0\<rparr>\<rparr>\<rparr>"

text \<open>
  \<open>surround(highlight)\<close>: the renderer and the highlight it leaves, and the elements
  returned or the exception; \<open>None\<close> when the loop over the visitor does not end.
\<close>

definition surround ::
  "bool \<Rightarrow> Highlight \<Rightarrow> HighlightRenderer \<Rightarrow> (HighlightRenderer \<times> Highlight \<times> (error + nat list)) option" where
  "surround dev h rd =
     (let rangeStart = range_start (hrange h); rangeEnd = range_end (hrange h); tc = content rd in
      if nid (node (heap tc (marker rangeStart))) = nid (node (heap tc (marker rangeEnd))) then
        (case surround_range dev rangeStart (RangeDescriptor.offset rangeStart)
                (Some (RangeDescriptor.offset rangeEnd)) tc of
           (tc1, Inl e) \<Rightarrow> Some (rd\<lparr>content := tc1\<rparr>, h, Inl e)
         | (tc1, Inr el) \<Rightarrow>
             Some (rd\<lparr>content := tc1, decorated := decorated rd @ [([el], clearStartOffset h)]\<rparr>,
                   clearStartOffset h, Inr [el]))
      else
        (case collect_until (node (heap tc (marker rangeEnd)))
                (text_nodes_after (node (heap tc (marker rangeStart))) (root tc)) of
           None \<Rightarrow> None
         | Some coll \<Rightarrow>
             (case surround_range dev rangeStart (RangeDescriptor.offset rangeStart) None tc of
                (tc1, Inl e) \<Rightarrow> Some (rd\<lparr>content := tc1\<rparr>, h, Inl e)
              | (tc1, Inr el1) \<Rightarrow>
                  (case surroundWhole_each coll tc1 of
                     (tc2, Inl e) \<Rightarrow> Some (rd\<lparr>content := tc2\<rparr>, h, Inl e)
                   | (tc2, Inr els) \<Rightarrow>
                       (case surround_range dev rangeEnd 0 (Some (RangeDescriptor.offset rangeEnd)) tc2 of
                          (tc3, Inl e) \<Rightarrow> Some (rd\<lparr>content := tc3\<rparr>, h, Inl e)
                        | (tc3, Inr el3) \<Rightarrow>
                            Some (rd\<lparr>content := tc3,
                                     decorated := decorated rd
                                       @ [([el1] @ els @ [el3], clearStartOffset h)]\<rparr>,
                                  clearStartOffset h, Inr ([el1] @ els @ [el3])))))))"

section \<open>Cursor.js\<close>

text \<open>What \<open>"..." + index\<close> appends to the message of the error: the number in decimal.\<close>

fun decimal :: "nat \<Rightarrow> string" where
  "decimal n =
     (if n < 10 then [''0123456789'' ! n]
      else decimal (n div 10) @ [''0123456789'' ! (n mod 10)])"

definition number_string :: "int \<Rightarrow> string" where
  "number_string i = (if i < 0 then CHR ''-'' # decimal (nat (- i)) else decimal (nat i))"

text \<open>\<open>clearActive_()\<close>\<close>

definition clearActive :: "Cursor \<Rightarrow> Cursor" where
  "clearActive c =
     (case active c of
        None \<Rightarrow> c
      | Some h \<Rightarrow> c\<lparr>trace := trace c @ [SetInactive h], active := None\<rparr>)"

definition update_cursor :: "bool \<Rightarrow> Cursor \<Rightarrow> Cursor" where
  "update_cursor force c =
     (let t = calculateTotalActive (Cursor.markers c) (iterableQueries c) in
      if force \<or> t \<noteq> total c
      then c\<lparr>total := t, trace := trace c @ [Emit (Update (index c) t)]\<rparr>
      else c)"

definition clear_cursor :: "Cursor \<Rightarrow> Cursor" where
  "clear_cursor c =
     (let c1 = clearActive c;
          c2 = c1\<lparr>index := - 1\<rparr>;
          c3 = update_cursor True c2
      in c3\<lparr>trace := trace c3 @ [Emit Clear]\<rparr>)"

definition setIterableQueries :: "IterableQueries option \<Rightarrow> Cursor \<Rightarrow> Cursor" where
  "setIterableQueries queries c =
     (let c1 = c\<lparr>iterableQueries :=
                 (case queries of
                    None \<Rightarrow> None
                  | Some (Single q) \<Rightarrow> Some [q]
                  | Some (Many qs) \<Rightarrow> Some qs)\<rparr>;
          c2 = clear_cursor c1
      in c2\<lparr>trace := trace c2 @ [Emit (SetIterable queries)]\<rparr>)"

text \<open>
  \<open>new Cursor(markers, decorator)\<close>. The subscription to the registry's \<open>update\<close> event
  calls \<open>update()\<close> when the registry changes; here \<open>update_cursor\<close> is called explicitly.
\<close>

definition new_Cursor :: "HighlightMarkers \<Rightarrow> Cursor" where
  "new_Cursor m =
     setIterableQueries None
       \<lparr>Cursor.markers = m, index = - 1, active = None, iterableQueries = None, total = 0, trace = []\<rparr>"

text \<open>
  \<open>set(index, dontRecurse, scrollTo)\<close>. \<open>inView\<close> is \<open>dom.isInView\<close>, of the absent module \<open>dom\<close>.
  The recursive call passes no \<open>scrollTo\<close>.
\<close>

function set_cursor ::
  "(nat \<Rightarrow> bool) \<Rightarrow> int \<Rightarrow> bool \<Rightarrow> (nat \<Rightarrow> outcome) option \<Rightarrow> Cursor \<Rightarrow> Cursor \<times> (error + bool)" where
  "set_cursor inView idx dontRecurse scrollTo c =
     (if idx < 0 then (c, Inl (Error (''Invalid cursor index specified: '' @ number_string idx)))
      else
        (let c0 = c\<lparr>trace := trace c @ [Find idx (iterableQueries c)]\<rparr> in
         case find_marker (Cursor.markers c) idx (iterableQueries c) of
           None \<Rightarrow>
             if \<not> dontRecurse then set_cursor inView 0 True None c0 else (c0, Inr False)
         | Some mk \<Rightarrow>
             (let c1 = clearActive c0;
                  coll = elements (highlight mk);
                  c2 =
                    (if length coll > 0 then
                       (let c3 = c1\<lparr>active := Some (highlight mk),
                                     trace := trace c1 @ [SetActive (highlight mk)]\<rparr>;
                            first = hd coll
                        in case scrollTo of
                             Some f \<Rightarrow>
                               (case f first of
                                  Returns \<Rightarrow> c3\<lparr>trace := trace c3 @ [ScrollTo first]\<rparr>
                                | Throws \<Rightarrow> c3\<lparr>trace := trace c3 @ [ScrollTo first, ConsoleError]\<rparr>)
                           | None \<Rightarrow>
                               if \<not> inView first
                               then c3\<lparr>trace := trace c3 @ [ScrollIntoView first]\<rparr>
                               else c3)
                     else c1)
              in if index c2 = idx then (c2, Inr False)
                 else (c2\<lparr>index := idx, trace := trace c2 @ [Emit (Update idx (total c2))]\<rparr>,
                       Inr True))))"
  by pat_completeness auto
termination
  by (relation "measure (\<lambda>(inView, idx, dontRecurse, scrollTo, c). if dontRecurse then 0 else 1)") auto

declare set_cursor.simps [simp del]

definition prev_cursor :: "(nat \<Rightarrow> bool) \<Rightarrow> Cursor \<Rightarrow> Cursor \<times> (error + unit)" where
  "prev_cursor inView c =
     (if total c > 0 then
        (case set_cursor inView ((if index c < 1 then total c else index c) - 1) False None c of
           (c', Inl e) \<Rightarrow> (c', Inl e)
         | (c', Inr moved) \<Rightarrow> (c', Inr ()))
      else (c, Inr ()))"

definition next_cursor :: "(nat \<Rightarrow> bool) \<Rightarrow> Cursor \<Rightarrow> Cursor \<times> (error + unit)" where
  "next_cursor inView c =
     (case set_cursor inView (index c + 1) False None c of
        (c', Inl e) \<Rightarrow> (c', Inl e)
      | (c', Inr moved) \<Rightarrow> (c', Inr ()))"

text \<open>
  Modelled from the spec: \<open>HighlightMarkers.js\<close> is not among the sources. A registry over
  highlights kept with the name of their query set: the virtual index addresses the ordered
  highlights of the selected query sets, and the count is their number.
\<close>

definition selected :: "string list option \<Rightarrow> (string \<times> Highlight) list \<Rightarrow> Highlight list" where
  "selected queries hs =
     map snd (filter (\<lambda>qh. case queries of None \<Rightarrow> True | Some names \<Rightarrow> fst qh \<in> set names) hs)"

definition registry_of :: "(string \<times> Highlight) list \<Rightarrow> HighlightMarkers" where
  "registry_of hs =
     \<lparr>find_marker = (\<lambda>i queries.
          if 0 \<le> i \<and> i < int (length (selected queries hs))
          then Some \<lparr>highlight = selected queries hs ! nat i\<rparr> else None),
      calculateTotalActive = (\<lambda>queries. int (length (selected queries hs)))\<rparr>"

text \<open>The indexes looked up in the registry, in order.\<close>

fun lookups :: "effect list \<Rightarrow> int list" where
  "lookups [] = []"
| "lookups (Find i q # es) = i # lookups es"
| "lookups (e # es) = lookups es"

text \<open>A document, a renderer and a range over three text nodes of one paragraph.\<close>

definition three_nodes_doc :: dom where
  "three_nodes_doc = Element 0 ''DIV'' [Text (TextNode 1 ''xx''),
     Element 2 ''P'' [Text (TextNode 3 ''Hello ''), Element 4 ''BR'' [],
       Text (TextNode 5 ''big ''), Text (TextNode 6 ''world!'')],
     Text (TextNode 7 ''yy'')]"

definition three_nodes_renderer :: HighlightRenderer where
  "three_nodes_renderer = \<lparr>content = fst (parse True (constructor three_nodes_doc)), decorated = []\<rparr>"

definition three_nodes_highlight :: Highlight where
  "three_nodes_highlight =
     \<lparr>hrange = \<lparr>range_start = \<lparr>marker = 1, offset = 2\<rparr>,
                 range_end = \<lparr>marker = 3, offset = 4\<rparr>\<rparr>, elements = []\<rparr>"

text \<open>Registries and cursors to compute on.\<close>

definition three_highlights :: "(string \<times> Highlight) list" where
  "three_highlights =
     [(''a'', \<lparr>hrange = \<lparr>range_start = \<lparr>marker = 0, offset = 0\<rparr>,
                          range_end = \<lparr>marker = 0, offset = 1\<rparr>\<rparr>, elements = [10]\<rparr>),
      (''b'', \<lparr>hrange = \<lparr>range_start = \<lparr>marker = 0, offset = 3\<rparr>,
                          range_end = \<lparr>marker = 0, offset = 4\<rparr>\<rparr>, elements = [11]\<rparr>),
      (''a'', \<lparr>hrange = \<lparr>range_start = \<lparr>marker = 1, offset = 0\<rparr>,
                          range_end = \<lparr>marker = 1, offset = 1\<rparr>\<rparr>, elements = [12, 13]\<rparr>)]"

definition cursor_at :: "int \<Rightarrow> Cursor" where
  "cursor_at i = fst (set_cursor (\<lambda>e. True) i False None (new_Cursor (registry_of three_highlights)))"

definition one_highlight :: "(string \<times> Highlight) list" where
  "one_highlight =
     [(''q'', \<lparr>hrange = \<lparr>range_start = \<lparr>marker = 0, offset = 0\<rparr>,
                          range_end = \<lparr>marker = 0, offset = 1\<rparr>\<rparr>, elements = [7]\<rparr>)]"

section \<open>The index invariant\<close>

text \<open>
  The properties the specification states of the markers array: contiguity from offset 0
  (what \<open>assert\<close> checks), non-empty nodes, and a flattened text as long as the nodes
  together.
\<close>

definition node_length :: "Marker \<Rightarrow> int" where
  "node_length m = int (length (nodeValue (node m)))"

fun contiguous :: "int \<Rightarrow> Marker list \<Rightarrow> bool" where
  "contiguous ofs [] = True"
| "contiguous ofs (m # ms) = (offset m = ofs \<and> contiguous (ofs + node_length m) ms)"

definition total_length :: "Marker list \<Rightarrow> int" where
  "total_length ms = sum_list (map node_length ms)"

definition nonempty_nodes :: "Marker list \<Rightarrow> bool" where
  "nonempty_nodes ms = list_all (\<lambda>m. 0 < node_length m) ms"

definition index_inv :: "TextContent \<Rightarrow> bool" where
  "index_inv tc = (contiguous 0 (marker_list tc) \<and> nonempty_nodes (marker_list tc)
     \<and> int (length (text tc)) = total_length (marker_list tc))"

text \<open>
  The flattened text as the specification words it: every text node, in document order and
  with the tag of its parent, contributes its content, or as many spaces when the parent is
  never rendered.
\<close>

fun text_nodes :: "string \<Rightarrow> dom \<Rightarrow> (string \<times> text_node) list" where
  "text_nodes ptag (Text t) = [(ptag, t)]"
| "text_nodes ptag (Element n tag ch) = concat (map (text_nodes tag) ch)"
| "text_nodes ptag (Other n) = []"

definition contribution :: "string \<times> text_node \<Rightarrow> string" where
  "contribution pt =
     (if fst pt \<in> IGNORE_TAGNAMES then replicate (length (nodeValue (snd pt))) (CHR '' '')
      else nodeValue (snd pt))"

definition flattened :: "dom \<Rightarrow> string" where
  "flattened r =
     concat (map contribution (filter (\<lambda>pt. nodeValue (snd pt) \<noteq> []) (text_nodes [] r)))"

text \<open>The markers of a run of text nodes that starts at a given offset.\<close>

fun expected_markers :: "int \<Rightarrow> text_node list \<Rightarrow> Marker list" where
  "expected_markers ofs [] = []"
| "expected_markers ofs (t # ts) =
     \<lparr>node = t, offset = ofs\<rparr> # expected_markers (ofs + int (length (nodeValue t))) ts"

fun is_element :: "dom \<Rightarrow> bool" where
  "is_element (Element n tag ch) = True"
| "is_element (Text t) = False"
| "is_element (Other n) = False"

text \<open>
  What holds of the objects behind the index: the array holds distinct, allocated Marker
  objects; the document is a tree of distinct allocated nodes below an element; and the
  markers point to distinct text nodes of that tree.
\<close>

definition heap_ok :: "TextContent \<Rightarrow> bool" where
  "heap_ok tc = (distinct (markers tc) \<and> list_all (\<lambda>r. r < next_marker tc) (markers tc))"

definition dom_ok :: "TextContent \<Rightarrow> bool" where
  "dom_ok tc = (is_element (root tc) \<and> distinct (ids (root tc))
     \<and> list_all (\<lambda>i. i < next_node tc) (ids (root tc))
     \<and> distinct (map node (marker_list tc))
     \<and> list_all (\<lambda>m. node m \<in> set (leaves (root tc))) (marker_list tc))"

definition tree_ok :: "dom \<Rightarrow> nat \<Rightarrow> bool" where
  "tree_ok t n = (is_element t \<and> distinct (ids t) \<and> list_all (\<lambda>i. i < n) (ids t))"

definition tc_inv :: "TextContent \<Rightarrow> bool" where
  "tc_inv tc = (heap_ok tc \<and> index_inv tc \<and> dom_ok tc)"

text \<open>
  The indexes the properties of \<open>truncate\<close> are about: a freshly parsed one, over a document that is a tree of
  distinct nodes below an element, and what valid \<open>truncate\<close> calls make of it. A call is
  valid when the Marker is one of the index and \<open>0 \<le> start \<le> end < length\<close> of its node.
\<close>

inductive reachable :: "bool \<Rightarrow> TextContent \<Rightarrow> bool" for dev :: bool where
  parsed: "is_element r \<Longrightarrow> distinct (ids r) \<Longrightarrow> reachable dev (fst (parse dev (constructor r)))"
| truncated: "reachable dev tc \<Longrightarrow> r \<in> set (markers tc) \<Longrightarrow> 0 \<le> start \<Longrightarrow> start \<le> end
     \<Longrightarrow> end < int (length (nodeValue (node (heap tc r))))
     \<Longrightarrow> reachable dev (fst (truncate dev tc r start end))"

text \<open>What a traversal that meets the text nodes \<open>ts\<close> does to the state and the offset.\<close>

definition visit_rel :: "(string \<times> text_node) list \<Rightarrow> TextContent \<times> int \<Rightarrow> TextContent \<times> int \<Rightarrow> bool" where
  "visit_rel ts acc res =
     (heap_ok (fst acc) \<longrightarrow>
        heap_ok (fst res) \<and> root (fst res) = root (fst acc) \<and> next_node (fst res) = next_node (fst acc)
      \<and> marker_list (fst res) = marker_list (fst acc)
            @ expected_markers (snd acc) (filter (\<lambda>t. nodeValue t \<noteq> []) (map snd ts))
      \<and> text (fst res) = text (fst acc) @ concat (map contribution ts)
      \<and> snd res = snd acc + int (length (concat (map contribution ts))))"

text \<open>A document to compute on: two words around a script and an empty text node.\<close>

definition example_doc :: dom where
  "example_doc = Element 0 ''P'' [Text (TextNode 1 ''Positive ''),
     Element 2 ''SCRIPT'' [Text (TextNode 3 ''x();'')], Text (TextNode 4 []),
     Text (TextNode 5 '' match'')]"

definition example_index :: TextContent where
  "example_index = fst (parse True (constructor example_doc))"

section \<open>Lemmas: contiguous markers and the binary search\<close>

lemma contiguous_append:
  "contiguous a (xs @ ys) = (contiguous a xs \<and> contiguous (a + total_length xs) ys)"
  by (induction xs arbitrary: a) (auto simp: total_length_def algebra_simps)

lemma contiguous_lower:
  "contiguous a ms \<Longrightarrow> nonempty_nodes ms \<Longrightarrow> m \<in> set ms \<Longrightarrow> a \<le> offset m"
proof (induction ms arbitrary: a)
  case Nil then show ?case by simp
next
  case (Cons x xs)
  show ?case
  proof (cases "m = x")
    case True with Cons.prems show ?thesis by simp
  next
    case False
    with Cons.prems have "m \<in> set xs" by simp
    moreover from Cons.prems have "contiguous (a + node_length x) xs" "nonempty_nodes xs" "0 < node_length x"
      by (simp_all add: nonempty_nodes_def)
    ultimately have "a + node_length x \<le> offset m" using Cons.IH by blast
    with \<open>0 < node_length x\<close> show ?thesis by simp
  qed
qed

lemma contiguous_strict:
  "contiguous a ms \<Longrightarrow> nonempty_nodes ms \<Longrightarrow> sorted_wrt (\<lambda>x y. offset x < offset y) ms"
proof (induction ms arbitrary: a)
  case Nil then show ?case by simp
next
  case (Cons x xs)
  from Cons.prems have c: "contiguous (a + node_length x) xs" and n: "nonempty_nodes xs"
    and p: "0 < node_length x" and o: "offset x = a"
    by (simp_all add: nonempty_nodes_def)
  have "\<forall>y\<in>set xs. offset x < offset y"
  proof
    fix y assume "y \<in> set xs"
    then have "a + node_length x \<le> offset y" using contiguous_lower [OF c n] by blast
    with p o show "offset x < offset y" by simp
  qed
  with Cons.IH [OF c n] show ?case by simp
qed

lemma contiguous_nth:
  "contiguous a ms \<Longrightarrow> Suc i < length ms \<Longrightarrow> offset (ms ! Suc i) = offset (ms ! i) + node_length (ms ! i)"
proof (induction ms arbitrary: a i)
  case Nil then show ?case by simp
next
  case (Cons x xs)
  show ?case
  proof (cases i)
    case 0
    with Cons.prems show ?thesis by (cases xs) auto
  next
    case (Suc j)
    with Cons.prems Cons.IH [of "a + node_length x" j] show ?thesis by simp
  qed
qed

lemma contiguous_last:
  "contiguous a ms \<Longrightarrow> ms \<noteq> [] \<Longrightarrow> offset (last ms) + node_length (last ms) = a + total_length ms"
  by (induction ms arbitrary: a) (auto simp: total_length_def)

lemma contiguous_first: "contiguous a ms \<Longrightarrow> ms \<noteq> [] \<Longrightarrow> offset (ms ! 0) = a"
  by (cases ms) auto

lemma marker_at_nth:
  "0 \<le> i \<Longrightarrow> i < int (length (markers tc)) \<Longrightarrow> marker_at tc i = Some (marker_list tc ! nat i)"
  by (simp add: marker_at_def at_index_def marker_list_def)

lemma indexOf_loop_lower_bound:
  assumes "sorted_wrt (\<lambda>x y. offset x < offset y) (marker_list tc)"
    and "0 \<le> lo" and "lo \<le> hi" and "hi < int (length (markers tc))"
    and "\<forall>i. 0 \<le> i \<and> i < lo \<longrightarrow> offset (marker_list tc ! nat i) < ofs"
    and "hi = int (length (markers tc)) - 1 \<or> ofs \<le> offset (marker_list tc ! nat hi)"
  shows "\<exists>k. indexOf_loop tc ofs lo hi = Inr k \<and> 0 \<le> k \<and> k < int (length (markers tc))
           \<and> (\<forall>i. 0 \<le> i \<and> i < k \<longrightarrow> offset (marker_list tc ! nat i) < ofs)
           \<and> (k = int (length (markers tc)) - 1 \<or> ofs \<le> offset (marker_list tc ! nat k))"
  using assms
proof (induction tc ofs lo hi rule: indexOf_loop.induct)
  case (1 tc ofs lo hi)
  let ?mid = "(lo + hi) div 2"
  show ?case
  proof (cases "lo < hi")
    case False
    with "1.prems" have "lo = hi" by simp
    with "1.prems" show ?thesis by (subst indexOf_loop.simps) auto
  next
    case True
    then have mid: "lo \<le> ?mid" "?mid < hi" by auto
    with "1.prems" have at: "marker_at tc ?mid = Some (marker_list tc ! nat ?mid)"
      by (intro marker_at_nth) auto
    show ?thesis
    proof (cases "offset (marker_list tc ! nat ?mid) < ofs")
      case lt: True
      have below: "\<forall>i. 0 \<le> i \<and> i < ?mid + 1 \<longrightarrow> offset (marker_list tc ! nat i) < ofs"
      proof (intro allI impI)
        fix i assume i: "0 \<le> i \<and> i < ?mid + 1"
        show "offset (marker_list tc ! nat i) < ofs"
        proof (cases "i = ?mid")
          case True with lt show ?thesis by simp
        next
          case False
          with i have "nat i < nat ?mid" by auto
          moreover have "nat ?mid < length (marker_list tc)"
            using mid "1.prems" by (auto simp: marker_list_def)
          ultimately have "offset (marker_list tc ! nat i) < offset (marker_list tc ! nat ?mid)"
            using "1.prems"(1) sorted_wrt_nth_less by blast
          with lt show ?thesis by simp
        qed
      qed
      have "\<exists>k. indexOf_loop tc ofs (?mid + 1) hi = Inr k \<and> 0 \<le> k \<and> k < int (length (markers tc))
           \<and> (\<forall>i. 0 \<le> i \<and> i < k \<longrightarrow> offset (marker_list tc ! nat i) < ofs)
           \<and> (k = int (length (markers tc)) - 1 \<or> ofs \<le> offset (marker_list tc ! nat k))"
        using "1.IH"(1) [OF True at lt "1.prems"(1) _ _ "1.prems"(4) below "1.prems"(6)] mid "1.prems"(2)
        by auto
      moreover have "indexOf_loop tc ofs lo hi = indexOf_loop tc ofs (?mid + 1) hi"
        using True at lt by (subst indexOf_loop.simps) simp
      ultimately show ?thesis by simp
    next
      case ge: False
      have "\<exists>k. indexOf_loop tc ofs lo ?mid = Inr k \<and> 0 \<le> k \<and> k < int (length (markers tc))
           \<and> (\<forall>i. 0 \<le> i \<and> i < k \<longrightarrow> offset (marker_list tc ! nat i) < ofs)
           \<and> (k = int (length (markers tc)) - 1 \<or> ofs \<le> offset (marker_list tc ! nat k))"
        using "1.IH"(2) [OF True at ge "1.prems"(1) "1.prems"(2) _ _ "1.prems"(5)] mid "1.prems"(4) ge
        by auto
      moreover have "indexOf_loop tc ofs lo hi = indexOf_loop tc ofs lo ?mid"
        using True at ge by (subst indexOf_loop.simps) simp
      ultimately show ?thesis by simp
    qed
  qed
qed


lemma indexOf_in_range:
  assumes c: "contiguous 0 (marker_list tc)" and n: "nonempty_nodes (marker_list tc)"
    and o: "0 \<le> ofs" "ofs < total_length (marker_list tc)"
  shows "\<exists>i. indexOf tc ofs = Inr i \<and> 0 \<le> i \<and> i < int (length (markers tc))
      \<and> offset (marker_list tc ! nat i) \<le> ofs
      \<and> ofs < offset (marker_list tc ! nat i) + node_length (marker_list tc ! nat i)"
proof -
  let ?ms = "marker_list tc"
  let ?n = "int (length (markers tc))"
  have len: "length ?ms = length (markers tc)" by (simp add: marker_list_def)
  from o have ne: "?ms \<noteq> []" by (auto simp: total_length_def)
  then have pos: "0 < ?n" using len by auto
  have s: "sorted_wrt (\<lambda>x y. offset x < offset y) ?ms" by (rule contiguous_strict [OF c n])
  from indexOf_loop_lower_bound [OF s, of 0 "?n - 1" ofs] pos
  obtain k where k: "indexOf_loop tc ofs 0 (?n - 1) = Inr k" "0 \<le> k" "k < ?n"
    "\<forall>i. 0 \<le> i \<and> i < k \<longrightarrow> offset (?ms ! nat i) < ofs"
    "k = ?n - 1 \<or> ofs \<le> offset (?ms ! nat k)"
    by auto
  have at: "marker_at tc k = Some (?ms ! nat k)" using k by (intro marker_at_nth) auto
  have succ: "\<And>i. 0 \<le> i \<Longrightarrow> i + 1 < ?n \<Longrightarrow>
      offset (?ms ! nat (i + 1)) = offset (?ms ! nat i) + node_length (?ms ! nat i)"
  proof -
    fix i :: int assume "0 \<le> i" "i + 1 < ?n"
    then have "Suc (nat i) < length ?ms" "nat (i + 1) = Suc (nat i)" using len by auto
    with contiguous_nth [OF c, of "nat i"] show
      "offset (?ms ! nat (i + 1)) = offset (?ms ! nat i) + node_length (?ms ! nat i)" by simp
  qed
  have lst: "offset (?ms ! nat (?n - 1)) + node_length (?ms ! nat (?n - 1)) = total_length ?ms"
  proof -
    have "nat (?n - 1) = length ?ms - 1" using len by linarith
    then have "last ?ms = ?ms ! nat (?n - 1)" using ne by (simp add: last_conv_nth)
    with contiguous_last [OF c ne] show ?thesis by simp
  qed
  show ?thesis
  proof (cases "offset (?ms ! nat k) \<le> ofs")
    case le: True
    then have r: "indexOf tc ofs = Inr k" using k(1) at by (simp add: indexOf_def)
    have "ofs < offset (?ms ! nat k) + node_length (?ms ! nat k)"
    proof (cases "k = ?n - 1")
      case True with lst o show ?thesis by simp
    next
      case False
      with k(5) le have "offset (?ms ! nat k) = ofs" by simp
      moreover have "?ms ! nat k \<in> set ?ms" using k len by auto
      then have "0 < node_length (?ms ! nat k)" using n by (auto simp: nonempty_nodes_def list_all_iff)
      ultimately show ?thesis by simp
    qed
    with r le k show ?thesis by simp
  next
    case gt: False
    have "k \<noteq> 0"
    proof
      assume "k = 0"
      with contiguous_first [OF c ne] gt o show False by simp
    qed
    with k have k1: "0 \<le> k - 1" "k - 1 < k" by auto
    then have r: "indexOf tc ofs = Inr (k - 1)" using k(1) at gt \<open>k \<noteq> 0\<close> by (simp add: indexOf_def)
    have "offset (?ms ! nat (k - 1)) < ofs" using k(4) k1 by blast
    moreover have "offset (?ms ! nat k) = offset (?ms ! nat (k - 1)) + node_length (?ms ! nat (k - 1))"
      using succ [of "k - 1"] k1 k(3) by simp
    ultimately have "offset (?ms ! nat (k - 1)) \<le> ofs \<and>
        ofs < offset (?ms ! nat (k - 1)) + node_length (?ms ! nat (k - 1))"
      using gt by simp
    moreover have "k - 1 < ?n" using k(3) by simp
    ultimately show ?thesis using r k1(1) by blast
  qed
qed

lemma indexOf_loop_done: "\<not> lo < hi \<Longrightarrow> indexOf_loop tc ofs lo hi = Inr lo"
  by (subst indexOf_loop.simps) simp

lemma indexOf_empty: "markers tc = [] \<Longrightarrow> indexOf tc ofs = Inl TypeError"
  by (simp add: indexOf_def marker_at_def at_index_def indexOf_loop_done)

lemma indexOf_negative:
  assumes c: "contiguous 0 (marker_list tc)" and n: "nonempty_nodes (marker_list tc)"
    and ne: "markers tc \<noteq> []" and o: "ofs < 0"
  shows "indexOf tc ofs = Inl (Error ''Invalid offset of text content state'')"
proof -
  let ?ms = "marker_list tc"
  let ?n = "int (length (markers tc))"
  have len: "length ?ms = length (markers tc)" by (simp add: marker_list_def)
  from ne have pos: "0 < ?n" by simp
  have s: "sorted_wrt (\<lambda>x y. offset x < offset y) ?ms" by (rule contiguous_strict [OF c n])
  from indexOf_loop_lower_bound [OF s, of 0 "?n - 1" ofs] pos
  obtain k where k: "indexOf_loop tc ofs 0 (?n - 1) = Inr k" "0 \<le> k" "k < ?n"
    "\<forall>i. 0 \<le> i \<and> i < k \<longrightarrow> offset (?ms ! nat i) < ofs"
    by auto
  have "?ms \<noteq> []" using ne by (simp add: marker_list_def)
  then have z: "offset (?ms ! 0) = 0" by (rule contiguous_first [OF c])
  have "k = 0"
  proof (rule ccontr)
    assume "k \<noteq> 0"
    with k have "offset (?ms ! nat 0) < ofs" by auto
    with z o show False by simp
  qed
  moreover have "marker_at tc 0 = Some (?ms ! nat 0)" using pos by (intro marker_at_nth) auto
  ultimately show ?thesis using k(1) z o by (simp add: indexOf_def)
qed

section \<open>Lemmas: the document tree\<close>

lemma ids_eq: "ids t = node_id t # kids t"
  by (cases t) auto

lemma kids_subset_ids: "set (kids t) \<subseteq> set (ids t)"
  by (auto simp: ids_eq)

lemma leaves_ids: "x \<in> set (leaves t) \<Longrightarrow> nid x \<in> set (ids t)"
  by (induction t) auto

lemma leaves_kids: "x \<in> set (leaves t) \<Longrightarrow> t \<noteq> Text x \<Longrightarrow> nid x \<in> set (kids t)"
  by (cases t) (auto dest: leaves_ids)

lemma replace_forest_absent:
  assumes "\<And>c. c \<in> set ch \<Longrightarrow> r \<notin> set (kids c) \<Longrightarrow> replace_child r g c = c"
    and "r \<notin> set (concat (map ids ch))"
  shows "concat (map (\<lambda>c. if node_id c = r then g c else [replace_child r g c]) ch) = ch"
  using assms
proof (induction ch)
  case Nil then show ?case by simp
next
  case (Cons c cs)
  from Cons.prems(2) have "r \<notin> set (ids c)" by simp
  then have "node_id c \<noteq> r" "r \<notin> set (kids c)" by (auto simp: ids_eq)
  with Cons show ?case by simp
qed

lemma replace_child_absent: "r \<notin> set (kids t) \<Longrightarrow> replace_child r g t = t"
proof (induction t)
  case (Element n tag ch)
  then show ?case using replace_forest_absent [of ch r g] by simp
qed simp_all

lemma leaf_unique:
  "x \<in> set (leaves c) \<Longrightarrow> node_id c = nid x \<Longrightarrow> distinct (ids c) \<Longrightarrow> c = Text x"
  by (cases c) (auto dest: leaves_ids)

text \<open>The forest step shared by the characterisations of a replaced leaf.\<close>

lemma replace_forest_leaf:
  assumes d: "distinct (concat (map ids ch))" and x: "x \<in> set (concat (map leaves ch))"
  shows "\<exists>cs1 c cs2. ch = cs1 @ c # cs2 \<and> x \<in> set (leaves c)
     \<and> nid x \<notin> set (concat (map ids cs1)) \<and> nid x \<notin> set (concat (map ids cs2))
     \<and> concat (map (\<lambda>c. if node_id c = nid x then g c else [replace_child (nid x) g c]) ch)
         = cs1 @ (if c = Text x then g c else [replace_child (nid x) g c]) @ cs2"
  using assms
proof (induction ch)
  case Nil then show ?case by simp
next
  case (Cons c cs)
  let ?f = "\<lambda>c. if node_id c = nid x then g c else [replace_child (nid x) g c]"
  from Cons.prems have dc: "distinct (ids c)" and dcs: "distinct (concat (map ids cs))"
    and dj: "set (ids c) \<inter> set (concat (map ids cs)) = {}" by auto
  show ?case
  proof (cases "x \<in> set (leaves c)")
    case True
    then have "nid x \<in> set (ids c)" by (rule leaves_ids)
    with dj have out: "nid x \<notin> set (concat (map ids cs))" by auto
    have rest: "concat (map ?f cs) = cs"
      by (rule replace_forest_absent [OF replace_child_absent out])
    have "(node_id c = nid x) = (c = Text x)"
      using leaf_unique [OF True _ dc] by fastforce
    then have "?f c = (if c = Text x then g c else [replace_child (nid x) g c])"
      by simp
    with rest have "concat (map ?f (c # cs)) = [] @ (if c = Text x then g c else [replace_child (nid x) g c]) @ cs"
      by simp
    with True out show ?thesis by (intro exI [of _ "[]"] exI [of _ c] exI [of _ cs]) simp
  next
    case False
    with Cons.prems have xin: "x \<in> set (concat (map leaves cs))" by auto
    then have "nid x \<in> set (concat (map ids cs))" by (auto dest: leaves_ids)
    with dj have nc: "nid x \<notin> set (ids c)" by auto
    then have c: "?f c = [c]" using replace_child_absent [of "nid x" c g] by (auto simp: ids_eq)
    from Cons.IH [OF dcs xin] obtain cs1 c' cs2 where
      e: "cs = cs1 @ c' # cs2" "x \<in> set (leaves c')"
      "nid x \<notin> set (concat (map ids cs1))" "nid x \<notin> set (concat (map ids cs2))"
      "concat (map ?f cs) = cs1 @ (if c' = Text x then g c' else [replace_child (nid x) g c']) @ cs2"
      by blast
    show ?thesis
      using e nc c by (intro exI [of _ "c # cs1"] exI [of _ c'] exI [of _ cs2]) simp
  qed
qed

lemma replace_child_leaf_ids:
  assumes "distinct (ids t)" and "x \<in> set (leaves t)" and "t \<noteq> Text x"
  shows "mset (ids (replace_child (nid x) g t))
     = mset (ids t) - {#nid x#} + mset (concat (map ids (g (Text x))))"
  using assms
proof (induction t)
  case (Text y) then show ?case by simp
next
  case (Other n) then show ?case by simp
next
  case (Element n tag ch)
  from Element.prems have d: "distinct (concat (map ids ch))" and x: "x \<in> set (concat (map leaves ch))"
    and n: "n \<notin> set (concat (map ids ch))" by auto
  from replace_forest_leaf [OF d x, of g] obtain cs1 c cs2 where
    e: "ch = cs1 @ c # cs2" "x \<in> set (leaves c)"
      "concat (map (\<lambda>c. if node_id c = nid x then g c else [replace_child (nid x) g c]) ch)
         = cs1 @ (if c = Text x then g c else [replace_child (nid x) g c]) @ cs2"
    by blast
  have nx: "n \<noteq> nid x" using n x by (auto dest: leaves_ids)
  have cin: "c \<in> set ch" using e by simp
  have dc: "distinct (ids c)" using d e by simp
  have xc: "nid x \<in># mset (ids c)" using e(2) by (auto dest: leaves_ids)
  have "mset (concat (map ids (if c = Text x then g c else [replace_child (nid x) g c])))
      = mset (ids c) - {#nid x#} + mset (concat (map ids (g (Text x))))"
  proof (cases "c = Text x")
    case True then show ?thesis by simp
  next
    case False
    with Element.IH [OF cin dc e(2)] show ?thesis by simp
  qed
  moreover have "mset (ids (replace_child (nid x) g (Element n tag ch)))
     = {#n#} + mset (concat (map ids cs1))
       + mset (concat (map ids (if c = Text x then g c else [replace_child (nid x) g c])))
       + mset (concat (map ids cs2))"
    by (simp add: e(3))
  moreover have "mset (ids (Element n tag ch)) - {#nid x#}
     = {#n#} + mset (concat (map ids cs1)) + (mset (ids c) - {#nid x#}) + mset (concat (map ids cs2))"
    using nx xc by (simp add: e(1) add.assoc)
  ultimately show ?case by simp
qed

lemma replace_child_leaf_leaves:
  assumes "distinct (ids t)" and "x \<in> set (leaves t)" and "t \<noteq> Text x"
  shows "mset (leaves (replace_child (nid x) g t))
     = mset (leaves t) - {#x#} + mset (concat (map leaves (g (Text x))))"
  using assms
proof (induction t)
  case (Text y) then show ?case by simp
next
  case (Other n) then show ?case by simp
next
  case (Element n tag ch)
  from Element.prems have d: "distinct (concat (map ids ch))" and x: "x \<in> set (concat (map leaves ch))"
    by auto
  from replace_forest_leaf [OF d x, of g] obtain cs1 c cs2 where
    e: "ch = cs1 @ c # cs2" "x \<in> set (leaves c)"
      "concat (map (\<lambda>c. if node_id c = nid x then g c else [replace_child (nid x) g c]) ch)
         = cs1 @ (if c = Text x then g c else [replace_child (nid x) g c]) @ cs2"
    by blast
  have cin: "c \<in> set ch" using e by simp
  have dc: "distinct (ids c)" using d e by simp
  have xc: "x \<in># mset (leaves c)" using e(2) by simp
  have "mset (concat (map leaves (if c = Text x then g c else [replace_child (nid x) g c])))
      = mset (leaves c) - {#x#} + mset (concat (map leaves (g (Text x))))"
  proof (cases "c = Text x")
    case True then show ?thesis by simp
  next
    case False
    with Element.IH [OF cin dc e(2)] show ?thesis by simp
  qed
  moreover have "mset (leaves (replace_child (nid x) g (Element n tag ch)))
     = mset (concat (map leaves cs1))
       + mset (concat (map leaves (if c = Text x then g c else [replace_child (nid x) g c])))
       + mset (concat (map leaves cs2))"
    by (simp add: e(3))
  moreover have "mset (leaves (Element n tag ch)) - {#x#}
     = mset (concat (map leaves cs1)) + (mset (leaves c) - {#x#}) + mset (concat (map leaves cs2))"
    using xc by (simp add: e(1) add.assoc)
  ultimately show ?case by simp
qed


lemma find_node_None:
  "(find_node p t = None) = (p \<notin> set (ids t))"
  "(find_forest p ch = None) = (p \<notin> set (concat (map ids ch)))"
  by (induction p t and p ch rule: find_node_find_forest.induct) (auto split: option.splits)

lemma find_node_Some:
  "find_node p t = Some d \<Longrightarrow> node_id d = p \<and> set (ids d) \<subseteq> set (ids t)"
  "find_forest p ch = Some d \<Longrightarrow> node_id d = p \<and> set (ids d) \<subseteq> set (concat (map ids ch))"
  by (induction p t and p ch rule: find_node_find_forest.induct)
     (auto split: option.splits if_splits)

lemma find_node_leaves:
  "find_node p t = Some d \<Longrightarrow> \<exists>l1 l2. leaves t = l1 @ leaves d @ l2"
  "find_forest p ch = Some d \<Longrightarrow> \<exists>l1 l2. concat (map leaves ch) = l1 @ leaves d @ l2"
proof (induction p t and p ch rule: find_node_find_forest.induct)
  case (1 p t)
  then show ?case by (auto split: if_splits intro: exI [of _ "[]"])
next
  case (2 p n tag ch)
  show ?case
  proof (cases "n = p")
    case True
    with 2 have "d = Element n tag ch" by simp
    then show ?thesis by (intro exI [of _ "[]"]) simp
  next
    case False
    with 2 show ?thesis by simp
  qed
next
  case (3 p n)
  then show ?case by (auto split: if_splits)
next
  case (4 p)
  then show ?case by simp
next
  case (5 p c cs)
  show ?case
  proof (cases "find_node p c")
    case None
    with 5 obtain l1 l2 where "concat (map leaves cs) = l1 @ leaves d @ l2" by auto
    then have "concat (map leaves (c # cs)) = (leaves c @ l1) @ leaves d @ l2" by simp
    then show ?thesis by blast
  next
    case (Some d')
    with 5 obtain l1 l2 where "leaves c = l1 @ leaves d @ l2" by auto
    then have "concat (map leaves (c # cs)) = l1 @ leaves d @ (l2 @ concat (map leaves cs))" by simp
    then show ?thesis by blast
  qed
qed

lemma replace_forest_unchanged:
  assumes "r \<notin> set (concat (map ids ch))"
  shows "concat (map (\<lambda>c. if node_id c = r then g c else [replace_child r g c]) ch) = ch"
  by (rule replace_forest_absent [OF replace_child_absent assms])

text \<open>Replacing a leaf that is a child of the element \<open>p\<close> rewrites the children of \<open>p\<close>.\<close>

lemma parent_replace:
  "distinct (ids t) \<Longrightarrow> find_node p t = Some (Element p tag (A @ Text x # B)) \<Longrightarrow>
     find_node p (replace_child (nid x) g t) = Some (Element p tag (A @ g (Text x) @ B))"
  "distinct (concat (map ids ch)) \<Longrightarrow> find_forest p ch = Some (Element p tag (A @ Text x # B)) \<Longrightarrow>
     find_forest p (concat (map (\<lambda>c. if node_id c = nid x then g c else [replace_child (nid x) g c]) ch))
       = Some (Element p tag (A @ g (Text x) @ B))"
proof (induction p t and p ch rule: find_node_find_forest.induct)
  case (1 p t)
  then show ?case by (auto split: if_splits)
next
  case (2 p n tag ch)
  show ?case
  proof (cases "n = p")
    case True
    with "2.prems" have ch: "ch = A @ Text x # B" by simp
    with "2.prems"(1) have "nid x \<notin> set (concat (map ids A))" "nid x \<notin> set (concat (map ids B))"
      by auto
    then have "concat (map (\<lambda>c. if node_id c = nid x then g c else [replace_child (nid x) g c]) ch)
        = A @ g (Text x) @ B"
      by (simp add: ch replace_forest_unchanged)
    with True "2.prems" show ?thesis by simp
  next
    case False
    with "2.prems" "2.IH" show ?thesis by simp
  qed
next
  case (3 p n)
  then show ?case by (auto split: if_splits)
next
  case (4 p)
  then show ?case by simp
next
  case (5 p c cs)
  let ?f = "\<lambda>c. if node_id c = nid x then g c else [replace_child (nid x) g c]"
  from "5.prems" have dc: "distinct (ids c)" and dcs: "distinct (concat (map ids cs))"
    and dj: "set (ids c) \<inter> set (concat (map ids cs)) = {}" by auto
  show ?case
  proof (cases "find_node p c")
    case (Some d)
    with "5.prems" have d: "find_node p c = Some (Element p tag (A @ Text x # B))" by simp
    from find_node_Some(1) [OF d] have "nid x \<in> set (ids c)" by auto
    moreover have "node_id c \<noteq> nid x"
    proof
      assume e: "node_id c = nid x"
      from d have "c \<noteq> Text x" by (auto split: if_splits)
      show False
      proof (cases "p = node_id c")
        case True
        with d e find_node_Some(1) [OF d] dc show False
          by (cases c) (auto split: if_splits)
      next
        case False
        with d obtain n tg ch' where c: "c = Element n tg ch'" "find_forest p ch' = Some (Element p tag (A @ Text x # B))"
          by (cases c) (auto split: if_splits)
        from find_node_Some(2) [OF c(2)] have "nid x \<in> set (concat (map ids ch'))" by auto
        with dc c e show False by auto
      qed
    qed
    ultimately have "?f c = [replace_child (nid x) g c]" by simp
    moreover from "5.IH"(1) [OF dc d]
    have "find_node p (replace_child (nid x) g c) = Some (Element p tag (A @ g (Text x) @ B))" .
    ultimately show ?thesis by simp
  next
    case None
    with "5.prems" have f: "find_forest p cs = Some (Element p tag (A @ Text x # B))" by simp
    from find_node_Some(2) [OF f] have "nid x \<in> set (concat (map ids cs))" by auto
    with dj have nx: "nid x \<notin> set (ids c)" by auto
    then have "?f c = [c]" using replace_child_absent [of "nid x" c g] by (auto simp: ids_eq)
    with None "5.IH"(2) [OF None dcs f] show ?thesis by simp
  qed
qed


section \<open>Lemmas: the traversal\<close>

lemma length_contribution: "length (contribution pt) = length (nodeValue (snd pt))"
  by (simp add: contribution_def)

lemma expected_markers_append:
  "expected_markers ofs (xs @ ys)
     = expected_markers ofs xs @ expected_markers (ofs + int (length (concat (map nodeValue xs)))) ys"
  by (induction xs arbitrary: ofs) (auto simp: algebra_simps)

lemma length_concat_nonempty:
  "length (concat (map nodeValue (filter (\<lambda>t. nodeValue t \<noteq> []) (map snd ts))))
     = length (concat (map contribution ts))"
  by (induction ts) (auto simp: length_contribution)

lemma visit_rel_refl: "visit_rel [] acc acc"
  by (simp add: visit_rel_def)

lemma visit_rel_trans:
  "visit_rel ts1 a b \<Longrightarrow> visit_rel ts2 b c \<Longrightarrow> visit_rel (ts1 @ ts2) a c"
  by (auto simp: visit_rel_def expected_markers_append length_concat_nonempty)

lemma visit_rel_text: "visit_rel [(ptag, t)] (tc, ofs) (visit ptag (Text t) (tc, ofs))"
proof (cases "nodeValue t = []")
  case True
  then show ?thesis by (simp add: visit_rel_def contribution_def)
next
  case False
  have fresh: "heap_ok tc \<Longrightarrow> map ((heap tc)(next_marker tc := m)) (markers tc) = map (heap tc) (markers tc)" for m
    by (auto simp: heap_ok_def list_all_iff)
  have ok: "heap_ok tc \<Longrightarrow> heap_ok (tc\<lparr>markers := markers tc @ [next_marker tc], heap := h,
      next_marker := Suc (next_marker tc), text := s\<rparr>)" for h s
    by (auto simp: heap_ok_def list_all_iff less_Suc_eq)
  from False show ?thesis
    by (auto simp: visit_rel_def Let_def marker_list_def fresh ok length_contribution
        contribution_def)
qed

lemma visit_visit_rel:
  "visit_rel (text_nodes ptag d) acc (visit ptag d acc)"
  "visit_rel (concat (map (text_nodes tag) ch)) acc (visit_children tag ch acc)"
proof (induction ptag d acc and tag ch acc rule: visit_visit_children.induct)
  case (1 ptag t tc ofs)
  show ?case using visit_rel_text [of ptag t tc ofs] by simp
next
  case (2 ptag n tag ch tc ofs)
  then show ?case by simp
next
  case (3 ptag n tc ofs)
  show ?case by (simp add: visit_rel_refl)
next
  case (4 tag acc)
  show ?case by (simp add: visit_rel_refl)
next
  case (5 tag c cs acc)
  from visit_rel_trans [OF "5.IH"(1) "5.IH"(2)] show ?case by simp
qed

lemma leaves_text_nodes: "map snd (text_nodes ptag d) = leaves d"
  by (induction d arbitrary: ptag) (auto simp: map_concat intro: arg_cong [where f = concat])


lemma node_expected_markers: "map node (expected_markers ofs ts) = ts"
  by (induction ts arbitrary: ofs) auto

lemma contiguous_expected_markers: "contiguous ofs (expected_markers ofs ts)"
  by (induction ts arbitrary: ofs) (auto simp: node_length_def)

lemma total_length_expected_markers:
  "total_length (expected_markers ofs ts) = int (length (concat (map nodeValue ts)))"
  by (induction ts arbitrary: ofs) (auto simp: total_length_def node_length_def)

lemma nonempty_expected_markers:
  "nonempty_nodes (expected_markers ofs (filter (\<lambda>t. nodeValue t \<noteq> []) ts))"
  by (induction ts arbitrary: ofs) (auto simp: nonempty_nodes_def node_length_def)

lemma contribution_nonempty:
  "concat (map contribution (filter (\<lambda>pt. nodeValue (snd pt) \<noteq> []) ts)) = concat (map contribution ts)"
  by (induction ts) (auto simp: contribution_def)

lemma visit_root:
  assumes "visit ptag r (tc\<lparr>text := [], markers := []\<rparr>, 0) = (tc', ofs)"
  shows "marker_list tc' = expected_markers 0 (filter (\<lambda>t. nodeValue t \<noteq> []) (leaves r))"
    and "text tc' = concat (map contribution (text_nodes ptag r))"
    and "ofs = int (length (text tc'))"
    and "heap_ok tc'" and "root tc' = root tc" and "next_node tc' = next_node tc"
proof -
  have "heap_ok (tc\<lparr>text := [], markers := []\<rparr>)" by (simp add: heap_ok_def)
  with visit_visit_rel(1) [of ptag r "(tc\<lparr>text := [], markers := []\<rparr>, 0)"] assms
  show "marker_list tc' = expected_markers 0 (filter (\<lambda>t. nodeValue t \<noteq> []) (leaves r))"
    and "text tc' = concat (map contribution (text_nodes ptag r))"
    and "ofs = int (length (text tc'))"
    and "heap_ok tc'" and "root tc' = root tc" and "next_node tc' = next_node tc"
    by (simp_all add: visit_rel_def marker_list_def leaves_text_nodes)
qed

lemma parse_result:
  obtains tc' where "parse dev tc = (tc', Inr ())"
    and "marker_list tc' = expected_markers 0 (filter (\<lambda>t. nodeValue t \<noteq> []) (leaves (root tc)))"
    and "text tc' = flattened (root tc)"
    and "heap_ok tc'" and "root tc' = root tc" and "next_node tc' = next_node tc"
    and "index_inv tc'"
proof -
  obtain tc' ofs where v: "visit [] (root tc) (tc\<lparr>text := [], markers := []\<rparr>, 0) = (tc', ofs)"
    by (cases "visit [] (root tc) (tc\<lparr>text := [], markers := []\<rparr>, 0)")
  note r = visit_root [OF v]
  let ?ts = "filter (\<lambda>t. nodeValue t \<noteq> []) (leaves (root tc))"
  have len: "int (length (text tc')) = total_length (marker_list tc')"
    using r(1,2) length_concat_nonempty [of "text_nodes [] (root tc)"]
    by (simp add: total_length_expected_markers leaves_text_nodes)
  have c: "contiguous 0 (marker_list tc')" using r(1) by (simp add: contiguous_expected_markers)
  have chk: "markers tc' \<noteq> [] \<Longrightarrow>
      ofs - int (length (nodeValue (node (heap tc' (last (markers tc')))))) = offset (heap tc' (last (markers tc')))"
  proof -
    assume ne: "markers tc' \<noteq> []"
    then have "marker_list tc' \<noteq> []" by (simp add: marker_list_def)
    from contiguous_last [OF c this] have
      "offset (last (marker_list tc')) + node_length (last (marker_list tc')) = ofs"
      using len r(3) by simp
    moreover have "last (marker_list tc') = heap tc' (last (markers tc'))"
      using ne by (simp add: marker_list_def last_map)
    ultimately show ?thesis by (simp add: node_length_def)
  qed
  have "parse dev tc = (tc', Inr ())"
    using v chk by (auto simp: parse_def Let_def)
  moreover have "text tc' = flattened (root tc)"
    using r(2) by (simp add: flattened_def contribution_nonempty)
  moreover have "index_inv tc'"
    using c len r(1) by (simp add: index_inv_def nonempty_expected_markers)
  ultimately show ?thesis using that r by blast
qed

lemma le_fold_max: "x \<in> set xs \<Longrightarrow> x \<le> fold max xs (a::nat)"
proof (induction xs arbitrary: a)
  case Nil then show ?case by simp
next
  case (Cons y ys)
  have mono: "b \<le> fold max ys b" for b :: nat
    by (induction ys arbitrary: b) (auto intro: order_trans [OF max.cobounded2])
  show ?case
  proof (cases "x = y")
    case True
    have "x \<le> max x a" by simp
    also have "\<dots> \<le> fold max ys (max x a)" by (rule mono)
    finally show ?thesis using True by simp
  next
    case False
    with Cons show ?thesis by simp
  qed
qed

lemma distinct_sub_mset: "mset xs \<subseteq># mset ys \<Longrightarrow> distinct ys \<Longrightarrow> distinct xs"
proof (induction xs arbitrary: ys)
  case Nil then show ?case by simp
next
  case (Cons x xs)
  from Cons.prems(1) have x: "x \<in> set ys"
    by (metis insert_subset_eq_iff mset.simps(2) set_mset_mset)
  from Cons.prems(1) have sub: "mset xs \<subseteq># mset (remove1 x ys)"
    by (simp add: insert_subset_eq_iff)
  have d: "distinct (remove1 x ys)" using Cons.prems(2) by simp
  have "x \<notin> set (remove1 x ys)" using Cons.prems(2) by simp
  then have "x \<notin> set xs" using sub by (metis mset_subset_eqD set_mset_mset)
  with Cons.IH [OF sub d] show ?case by simp
qed

lemma leaves_sub_ids: "mset (map nid (leaves t)) \<subseteq># mset (ids t)"
proof (induction t)
  case (Element n tag ch)
  have "mset (map nid (concat (map leaves ch))) \<subseteq># mset (concat (map ids ch))"
    using Element.IH
  proof (induction ch)
    case Nil then show ?case by simp
  next
    case (Cons c cs)
    then show ?case by (simp add: subset_mset.add_mono)
  qed
  also have "mset (concat (map ids ch)) \<subseteq># add_mset n (mset (concat (map ids ch)))"
    by simp
  finally show ?case by simp
qed simp_all

lemma distinct_leaves: "distinct (ids t) \<Longrightarrow> distinct (leaves t)"
  using distinct_sub_mset [OF leaves_sub_ids] distinct_map by blast

lemma parse_tc_inv:
  assumes e: "is_element r" and d: "distinct (ids r)"
  shows "tc_inv (fst (parse dev (constructor r)))"
proof -
  obtain tc' where p: "parse dev (constructor r) = (tc', Inr ())"
    and ms: "marker_list tc' = expected_markers 0 (filter (\<lambda>t. nodeValue t \<noteq> []) (leaves (root (constructor r))))"
    and h: "heap_ok tc'" and rt: "root tc' = root (constructor r)"
    and nn: "next_node tc' = next_node (constructor r)" and i: "index_inv tc'"
    by (rule parse_result [of dev "constructor r"])
  have rr: "root tc' = r" using rt by (simp add: constructor_def)
  have "list_all (\<lambda>i. i < next_node tc') (ids r)"
    using nn by (auto simp: constructor_def list_all_iff less_Suc_eq_le le_fold_max)
  moreover have "map node (marker_list tc') = filter (\<lambda>t. nodeValue t \<noteq> []) (leaves r)"
    using ms by (simp add: node_expected_markers constructor_def)
  then have "distinct (map node (marker_list tc'))"
    and "set (map node (marker_list tc')) \<subseteq> set (leaves r)"
    using distinct_leaves [OF d] by simp_all
  then have "distinct (map node (marker_list tc'))"
    and "list_all (\<lambda>m. node m \<in> set (leaves r)) (marker_list tc')"
    by (auto simp: list_all_iff)
  ultimately have "dom_ok tc'" using e d rr by (simp add: dom_ok_def)
  with h i p show ?thesis by (simp add: tc_inv_def)
qed


section \<open>Lemmas: truncation\<close>

lemma is_element_replace_child: "is_element (replace_child r g t) = is_element t"
  by (cases t) auto

lemma is_element_not_Text: "is_element t \<Longrightarrow> t \<noteq> Text x"
  by (cases t) auto

lemma tree_ok_leaf_fresh: "tree_ok t n \<Longrightarrow> x \<in> set (leaves t) \<Longrightarrow> nid x < n"
  by (auto simp: tree_ok_def list_all_iff dest: leaves_ids)

lemma tree_ok_mset:
  assumes "tree_ok t n" and "is_element t'" and "mset (ids t') = add_mset n (mset (ids t))"
  shows "tree_ok t' (Suc n)"
proof -
  from assms(3) have "mset (ids t') = mset (n # ids t)" by simp
  then have d: "distinct (ids t') = distinct (n # ids t)" and s: "set (ids t') = set (n # ids t)"
    by (rule mset_eq_imp_distinct_iff, rule mset_eq_setD)
  from assms(1) have "n \<notin> set (ids t)" by (auto simp: tree_ok_def list_all_iff)
  with assms(1,2) d s show ?thesis by (auto simp: tree_ok_def list_all_iff)
qed

lemma insert_leaf_ok:
  assumes ok: "tree_ok t n" and x: "x \<in> set (leaves t)"
    and g: "g (Text x) = [Text (TextNode n s), Text x] \<or> g (Text x) = [Text x, Text (TextNode n s)]"
  shows "nid x \<in> set (kids t)"
    and "tree_ok (replace_child (nid x) g t) (Suc n)"
    and "mset (leaves (replace_child (nid x) g t)) = add_mset (TextNode n s) (mset (leaves t))"
proof -
  from ok have e: "is_element t" and d: "distinct (ids t)" by (simp_all add: tree_ok_def)
  from e have nt: "t \<noteq> Text x" by (rule is_element_not_Text)
  show "nid x \<in> set (kids t)" by (rule leaves_kids [OF x nt])
  have xi: "nid x \<in># mset (ids t)" using leaves_ids [OF x] by simp
  have "mset (ids (replace_child (nid x) g t)) = add_mset n (mset (ids t))"
    using replace_child_leaf_ids [OF d x nt, of g] g xi by auto
  then show "tree_ok (replace_child (nid x) g t) (Suc n)"
    using ok e by (intro tree_ok_mset [of t]) (simp_all add: is_element_replace_child)
  have xl: "x \<in># mset (leaves t)" using x by simp
  show "mset (leaves (replace_child (nid x) g t)) = add_mset (TextNode n s) (mset (leaves t))"
    using replace_child_leaf_leaves [OF d x nt, of g] g xl by auto
qed

lemma removeChild_leaf_ok:
  assumes ok: "tree_ok t n" and x: "x \<in> set (leaves t)"
  shows "removeChild (nid x) t = Inr (replace_child (nid x) (\<lambda>c. []) t)"
    and "tree_ok (replace_child (nid x) (\<lambda>c. []) t) n"
    and "mset (leaves (replace_child (nid x) (\<lambda>c. []) t)) = mset (leaves t) - {#x#}"
proof -
  from ok have e: "is_element t" and d: "distinct (ids t)" by (simp_all add: tree_ok_def)
  from e have nt: "t \<noteq> Text x" by (rule is_element_not_Text)
  show "removeChild (nid x) t = Inr (replace_child (nid x) (\<lambda>c. []) t)"
    using leaves_kids [OF x nt] by (simp add: removeChild_def)
  have "mset (ids (replace_child (nid x) (\<lambda>c. []) t)) = mset (remove1 (nid x) (ids t))"
    using replace_child_leaf_ids [OF d x nt, of "\<lambda>c. []"] by simp
  then have "distinct (ids (replace_child (nid x) (\<lambda>c. []) t)) = distinct (remove1 (nid x) (ids t))"
    and "set (ids (replace_child (nid x) (\<lambda>c. []) t)) = set (remove1 (nid x) (ids t))"
    by (rule mset_eq_imp_distinct_iff, rule mset_eq_setD)
  then show "tree_ok (replace_child (nid x) (\<lambda>c. []) t) n"
    using ok by (auto simp: tree_ok_def list_all_iff is_element_replace_child)
  show "mset (leaves (replace_child (nid x) (\<lambda>c. []) t)) = mset (leaves t) - {#x#}"
    using replace_child_leaf_leaves [OF d x nt, of "\<lambda>c. []"] by simp
qed

lemma insertBefore_leaf_ok:
  assumes ok: "tree_ok t n" and x: "x \<in> set (leaves t)"
  shows "insertBefore (Text (TextNode n s)) (nid x) t
      = Inr (replace_child (nid x) (\<lambda>c. [Text (TextNode n s), c]) t)"
    and "tree_ok (replace_child (nid x) (\<lambda>c. [Text (TextNode n s), c]) t) (Suc n)"
    and "mset (leaves (replace_child (nid x) (\<lambda>c. [Text (TextNode n s), c]) t))
      = add_mset (TextNode n s) (mset (leaves t))"
  using insert_leaf_ok [OF ok x, of "\<lambda>c. [Text (TextNode n s), c]" s]
  by (simp_all add: insertBefore_def)

lemma insertAfter_leaf_ok:
  assumes ok: "tree_ok t n" and x: "x \<in> set (leaves t)"
  shows "insertAfter (Text (TextNode n s)) (nid x) t
      = Inr (replace_child (nid x) (\<lambda>c. [c, Text (TextNode n s)]) t)"
    and "tree_ok (replace_child (nid x) (\<lambda>c. [c, Text (TextNode n s)]) t) (Suc n)"
    and "mset (leaves (replace_child (nid x) (\<lambda>c. [c, Text (TextNode n s)]) t))
      = add_mset (TextNode n s) (mset (leaves t))"
  using insert_leaf_ok [OF ok x, of "\<lambda>c. [c, Text (TextNode n s)]" s]
  by (simp_all add: insertAfter_def)


lemma splice_insert_at: "splice_insert (int (length xs)) a (xs @ ys) = xs @ a # ys"
  by (simp add: splice_insert_def Let_def)

lemma splice_insert_after: "splice_insert (int (length xs) + 1) a (xs @ y # ys) = xs @ y # a # ys"
proof -
  have "nat (int (length xs) + 1) = Suc (length xs)" by simp
  then show ?thesis by (simp add: splice_insert_def Let_def min_def)
qed

lemma Marker_update_all: "(m::Marker)\<lparr>offset := a, node := b\<rparr> = \<lparr>node = b, offset = a\<rparr>"
  by (cases m) simp

lemma truncate_head_step:
  assumes m: "markers tc = rs1 @ r # rs2" and t: "tree_ok (root tc) (next_node tc)"
    and o: "old \<in> set (leaves (root tc))" and s: "0 < start"
  shows "\<exists>tc1. truncate_head tc r old txt (int (length rs1)) start = (tc1, Inr (int (length rs1) + 1))
     \<and> markers tc1 = rs1 @ next_marker tc # r # rs2
     \<and> heap tc1 = (heap tc)(next_marker tc :=
           \<lparr>node = TextNode (next_node tc) (substr txt 0 start), offset = offset (heap tc r)\<rparr>)
     \<and> next_marker tc1 = Suc (next_marker tc) \<and> next_node tc1 = Suc (next_node tc)
     \<and> text tc1 = text tc
     \<and> tree_ok (root tc1) (next_node tc1)
     \<and> mset (leaves (root tc1))
         = add_mset (TextNode (next_node tc) (substr txt 0 start)) (mset (leaves (root tc)))
     \<and> root tc1 = replace_child (nid old)
           (\<lambda>c. [Text (TextNode (next_node tc) (substr txt 0 start)), c]) (root tc)"
  using s m insertBefore_leaf_ok [OF t o, of "substr txt 0 start"]
  by (simp add: truncate_head_def createTextNode_def Let_def splice_insert_at)

lemma truncate_middle_step:
  assumes t: "tree_ok (root tc) (next_node tc)" and o: "node (heap tc r) \<in> set (leaves (root tc))"
  shows "\<exists>tc2. truncate_middle tc r txt start end = (tc2, Inr ())
     \<and> markers tc2 = markers tc
     \<and> heap tc2 = (heap tc)(r :=
           \<lparr>node = TextNode (next_node tc) (substr txt start (end - start + 1)),
            offset = offset (heap tc r) + start\<rparr>)
     \<and> next_marker tc2 = next_marker tc \<and> next_node tc2 = Suc (next_node tc)
     \<and> text tc2 = text tc
     \<and> tree_ok (root tc2) (next_node tc2)
     \<and> mset (leaves (root tc2))
         = add_mset (TextNode (next_node tc) (substr txt start (end - start + 1))) (mset (leaves (root tc)))
     \<and> root tc2 = replace_child (nid (node (heap tc r)))
           (\<lambda>c. [Text (TextNode (next_node tc) (substr txt start (end - start + 1))), c]) (root tc)"
  using insertBefore_leaf_ok [OF t o, of "substr txt start (end - start + 1)"]
  by (simp add: truncate_middle_def createTextNode_def Let_def Marker_update_all)

lemma truncate_tail_step:
  assumes m: "markers tc = rs1 @ r # rs2" and t: "tree_ok (root tc) (next_node tc)"
    and o: "node (heap tc r) \<in> set (leaves (root tc))" and e: "end \<noteq> int (length txt) - 1"
  shows "\<exists>tc3. truncate_tail tc r txt (int (length rs1)) start end = (tc3, Inr ())
     \<and> markers tc3 = rs1 @ r # next_marker tc # rs2
     \<and> heap tc3 = (heap tc)(next_marker tc :=
           \<lparr>node = TextNode (next_node tc) (substr_from txt (end + 1)),
            offset = offset (heap tc r) + end - start + 1\<rparr>)
     \<and> next_marker tc3 = Suc (next_marker tc) \<and> next_node tc3 = Suc (next_node tc)
     \<and> text tc3 = text tc
     \<and> tree_ok (root tc3) (next_node tc3)
     \<and> mset (leaves (root tc3))
         = add_mset (TextNode (next_node tc) (substr_from txt (end + 1))) (mset (leaves (root tc)))
     \<and> root tc3 = replace_child (nid (node (heap tc r)))
           (\<lambda>c. [c, Text (TextNode (next_node tc) (substr_from txt (end + 1)))]) (root tc)"
  using e m insertAfter_leaf_ok [OF t o, of "substr_from txt (end + 1)"]
  by (simp add: truncate_tail_def createTextNode_def Let_def splice_insert_after)


lemma substr_take_drop:
  "0 \<le> a \<Longrightarrow> 0 \<le> n \<Longrightarrow> a + n \<le> int (length s) \<Longrightarrow> substr s a n = take (nat n) (drop (nat a) s)"
  by (simp add: substr_def Let_def min_def max_def)

lemma length_substr:
  assumes "0 \<le> a" and "0 \<le> n" and "a + n \<le> int (length s)"
  shows "int (length (substr s a n)) = n"
proof -
  have "nat n \<le> length s - nat a" using assms by linarith
  then show ?thesis using assms by (simp add: substr_take_drop [OF assms])
qed

lemma length_substr_from:
  "0 \<le> a \<Longrightarrow> a \<le> int (length s) \<Longrightarrow> int (length (substr_from s a)) = int (length s) - a"
  by (simp add: substr_from_def Let_def min_def max_def)

lemma substr_from_drop:
  "0 \<le> a \<Longrightarrow> a \<le> int (length s) \<Longrightarrow> substr_from s a = drop (nat a) s"
  by (simp add: substr_from_def Let_def min_def max_def)

lemma total_length_append: "total_length (xs @ ys) = total_length xs + total_length ys"
  by (simp add: total_length_def)

lemma total_length_nonneg: "0 \<le> total_length xs"
  by (induction xs) (simp_all add: total_length_def node_length_def)

lemma assert_loop_contiguous: "contiguous ofs ms \<Longrightarrow> assert_loop ms ofs = Inr ()"
  by (induction ms arbitrary: ofs) (auto simp: node_length_def)

lemma indexOf_of_marker:
  assumes c: "contiguous 0 (marker_list tc)" and n: "nonempty_nodes (marker_list tc)"
    and m: "markers tc = rs1 @ r # rs2"
  shows "indexOf tc (offset (heap tc r)) = Inr (int (length rs1))"
proof -
  let ?ms = "marker_list tc"
  let ?k = "length rs1"
  have ms: "?ms = map (heap tc) rs1 @ heap tc r # map (heap tc) rs2"
    using m by (simp add: marker_list_def)
  have k: "?k < length ?ms" "?ms ! ?k = heap tc r"
    using ms by (simp_all add: nth_append)
  from c ms have o: "offset (heap tc r) = total_length (map (heap tc) rs1)"
    by (simp add: contiguous_append)
  have pos: "0 < node_length (heap tc r)"
    using n ms by (simp add: nonempty_nodes_def)
  have lo: "0 \<le> offset (heap tc r)" using o total_length_nonneg by simp
  have hi: "offset (heap tc r) < total_length ?ms"
    using o pos total_length_nonneg [of "map (heap tc) rs2"]
    by (simp add: ms total_length_append total_length_def)
  from indexOf_in_range [OF c n lo hi] obtain i where
    i: "indexOf tc (offset (heap tc r)) = Inr i" "0 \<le> i" "i < int (length (markers tc))"
      "offset (?ms ! nat i) \<le> offset (heap tc r)"
      "offset (heap tc r) < offset (?ms ! nat i) + node_length (?ms ! nat i)"
    by blast
  have s: "sorted_wrt (\<lambda>x y. offset x < offset y) ?ms" by (rule contiguous_strict [OF c n])
  have il: "nat i < length ?ms" using i by (simp add: marker_list_def)
  have "nat i = ?k"
  proof (rule ccontr)
    assume ne: "nat i \<noteq> ?k"
    show False
    proof (cases "nat i < ?k")
      case True
      then have si: "Suc (nat i) < length ?ms" using k by simp
      have "offset (?ms ! Suc (nat i)) \<le> offset (?ms ! ?k)"
      proof (cases "Suc (nat i) = ?k")
        case True then show ?thesis by simp
      next
        case False
        with \<open>nat i < ?k\<close> have "Suc (nat i) < ?k" by simp
        from sorted_wrt_nth_less [OF s this k(1)] show ?thesis by simp
      qed
      with contiguous_nth [OF c si] i(5) k(2) show False by simp
    next
      case False
      with ne have "?k < nat i" by simp
      from sorted_wrt_nth_less [OF s this il] i(4) k(2) show False by simp
    qed
  qed
  with i(1,2) show ?thesis by simp
qed


lemma truncate_valid:
  assumes inv: "tc_inv tc" and r: "r \<in> set (markers tc)"
    and a: "0 \<le> start" "start \<le> end" "end < int (length (nodeValue (node (heap tc r))))"
  shows "\<exists>tc' i. truncate dev tc r start end = (tc', Inr i) \<and> tc_inv tc'
     \<and> total_length (marker_list tc') = total_length (marker_list tc)
     \<and> text tc' = text tc
     \<and> marker_at tc' i = Some (heap tc' r)
     \<and> nodeValue (node (heap tc' r)) = substr (nodeValue (node (heap tc r))) start (end - start + 1)
     \<and> offset (heap tc' r) = offset (heap tc r) + start
     \<and> set (markers tc) \<subseteq> set (markers tc')
     \<and> (\<forall>q\<in>set (markers tc). q \<noteq> r \<longrightarrow> heap tc' q = heap tc q)
     \<and> (\<forall>y\<in>set (leaves (root tc)). y \<noteq> node (heap tc r) \<longrightarrow> y \<in> set (leaves (root tc')))
     \<and> (\<exists>before after.
           (start = 0 \<longrightarrow> before = [])
         \<and> (end = int (length (nodeValue (node (heap tc r)))) - 1 \<longrightarrow> after = [])
         \<and> (\<forall>p tag A B. find_node p (root tc) = Some (Element p tag (A @ Text (node (heap tc r)) # B)) \<longrightarrow>
               find_node p (root tc')
                 = Some (Element p tag (A @ map Text before @ [Text (node (heap tc' r))] @ map Text after @ B))))"
proof -
  from inv have h: "heap_ok tc" and ix: "index_inv tc" and dm: "dom_ok tc"
    by (simp_all add: tc_inv_def)
  from r obtain rs1 rs2 where m: "markers tc = rs1 @ r # rs2" by (auto dest: split_list)
  define old where "old = node (heap tc r)"
  define cont where "cont = nodeValue old"
  define len where "len = int (length cont)"
  define xs where "xs = map (heap tc) rs1"
  define ys where "ys = map (heap tc) rs2"
  have ms: "marker_list tc = xs @ heap tc r # ys"
    using m by (simp add: marker_list_def xs_def ys_def)
  from ix have c: "contiguous 0 (marker_list tc)" and n: "nonempty_nodes (marker_list tc)"
    and tx: "int (length (text tc)) = total_length (marker_list tc)"
    by (simp_all add: index_inv_def)
  have idx: "indexOf tc (offset (heap tc r)) = Inr (int (length rs1))"
    by (rule indexOf_of_marker [OF c n m])
  from dm have t0: "tree_ok (root tc) (next_node tc)" by (simp add: dom_ok_def tree_ok_def)
  from dm have o0: "old \<in> set (leaves (root tc))"
    by (simp add: dom_ok_def ms old_def)
  from h m have old_refs: "\<And>q. q \<in> set rs1 \<union> set rs2 \<union> {r} \<Longrightarrow> q < next_marker tc"
    and dr: "distinct rs1" "distinct rs2" "r \<notin> set rs1" "r \<notin> set rs2" "set rs1 \<inter> set rs2 = {}"
    by (auto simp: heap_ok_def list_all_iff)
  from a have al: "end < len" by (simp add: len_def cont_def old_def)

  \<comment> \<open>Chars 0..start - 1\<close>
  define H where "H = \<lparr>node = TextNode (next_node tc) (substr cont 0 start), offset = offset (heap tc r)\<rparr>"
  define news1 where "news1 = (if 0 < start then [next_marker tc] else [])"
  define hd where "hd = (if 0 < start then [H] else [])"
  have "\<exists>tc1. truncate_head tc r old cont (int (length rs1)) start = (tc1, Inr (int (length (rs1 @ news1))))
       \<and> markers tc1 = (rs1 @ news1) @ r # rs2
       \<and> heap tc1 = (if 0 < start then (heap tc)(next_marker tc := H) else heap tc)
       \<and> next_marker tc1 = next_marker tc + length news1
       \<and> next_node tc1 = next_node tc + length news1
       \<and> text tc1 = text tc
       \<and> tree_ok (root tc1) (next_node tc1)
       \<and> mset (leaves (root tc1)) = mset (map node hd) + mset (leaves (root tc))
       \<and> root tc1 = (if 0 < start then replace_child (nid old) (\<lambda>c. [Text (node H), c]) (root tc)
                      else root tc)"
  proof (cases "0 < start")
    case True
    with truncate_head_step [OF m t0 o0 True, of cont] show ?thesis
      by (auto simp: news1_def hd_def H_def)
  next
    case False
    then show ?thesis using m t0 by (simp add: truncate_head_def news1_def hd_def)
  qed
  then obtain tc1 where
    s1: "truncate_head tc r old cont (int (length rs1)) start = (tc1, Inr (int (length (rs1 @ news1))))"
    and m1: "markers tc1 = (rs1 @ news1) @ r # rs2"
    and h1: "heap tc1 = (if 0 < start then (heap tc)(next_marker tc := H) else heap tc)"
    and nm1: "next_marker tc1 = next_marker tc + length news1"
    and nn1: "next_node tc1 = next_node tc + length news1"
    and tx1: "text tc1 = text tc"
    and t1: "tree_ok (root tc1) (next_node tc1)"
    and l1: "mset (leaves (root tc1)) = mset (map node hd) + mset (leaves (root tc))"
    and rt1: "root tc1 = (if 0 < start then replace_child (nid old) (\<lambda>c. [Text (node H), c]) (root tc)
                      else root tc)"
    by blast
  have r1: "heap tc1 r = heap tc r" using h1 old_refs [of r] by auto
  have o1: "node (heap tc1 r) \<in> set (leaves (root tc1))"
    using o0 l1 r1 by (metis old_def mset_eq_setD set_mset_mset union_iff)

  \<comment> \<open>Chars start..end\<close>
  define M where "M = \<lparr>node = TextNode (next_node tc1) (substr cont start (end - start + 1)),
      offset = offset (heap tc r) + start\<rparr>"
  from truncate_middle_step [OF t1 o1, of cont start "end"] obtain tc2 where
    s2: "truncate_middle tc1 r cont start end = (tc2, Inr ())"
    and m2: "markers tc2 = markers tc1"
    and h2: "heap tc2 = (heap tc1)(r := M)"
    and nm2: "next_marker tc2 = next_marker tc1"
    and nn2: "next_node tc2 = Suc (next_node tc1)"
    and tx2: "text tc2 = text tc1"
    and t2: "tree_ok (root tc2) (next_node tc2)"
    and l2: "mset (leaves (root tc2)) = add_mset (node M) (mset (leaves (root tc1)))"
    and rt2: "root tc2 = replace_child (nid old) (\<lambda>c. [Text (node M), c]) (root tc1)"
    unfolding M_def r1 old_def by auto
  have o2: "node (heap tc2 r) \<in> set (leaves (root tc2))"
    using l2 h2 by (metis fun_upd_same mset_eq_setD set_mset_mset union_single_eq_member)

  \<comment> \<open>Chars end + 1..length\<close>
  define T where "T = \<lparr>node = TextNode (next_node tc2) (substr_from cont (end + 1)),
      offset = offset (heap tc r) + start + end - start + 1\<rparr>"
  define news3 where "news3 = (if end \<noteq> len - 1 then [next_marker tc2] else [])"
  define tl where "tl = (if end \<noteq> len - 1 then [T] else [])"
  have m2': "markers tc2 = (rs1 @ news1) @ r # rs2" using m1 m2 by simp
  have "\<exists>tc3. truncate_tail tc2 r cont (int (length (rs1 @ news1))) start end = (tc3, Inr ())
       \<and> markers tc3 = (rs1 @ news1) @ r # news3 @ rs2
       \<and> heap tc3 = (if end \<noteq> len - 1 then (heap tc2)(next_marker tc2 := T) else heap tc2)
       \<and> next_marker tc3 = next_marker tc2 + length news3
       \<and> next_node tc3 = next_node tc2 + length news3
       \<and> text tc3 = text tc2
       \<and> tree_ok (root tc3) (next_node tc3)
       \<and> mset (leaves (root tc3)) = mset (map node tl) + mset (leaves (root tc2))
       \<and> root tc3 = (if end \<noteq> len - 1
                      then replace_child (nid (node M)) (\<lambda>c. [c, Text (node T)]) (root tc2)
                      else root tc2)"
  proof (cases "end \<noteq> len - 1")
    case True
    then have e: "end \<noteq> int (length cont) - 1" by (simp add: len_def)
    have "offset (heap tc2 r) = offset (heap tc r) + start" "node (heap tc2 r) = node M"
      using h2 by (simp_all add: M_def)
    with truncate_tail_step [OF m2' t2 o2 e, of start] True show ?thesis
      by (auto simp: news3_def tl_def T_def)
  next
    case False
    then show ?thesis using m2' t2 by (simp add: truncate_tail_def news3_def tl_def len_def)
  qed
  then obtain tc3 where
    s3: "truncate_tail tc2 r cont (int (length (rs1 @ news1))) start end = (tc3, Inr ())"
    and m3: "markers tc3 = (rs1 @ news1) @ r # news3 @ rs2"
    and h3: "heap tc3 = (if end \<noteq> len - 1 then (heap tc2)(next_marker tc2 := T) else heap tc2)"
    and nm3: "next_marker tc3 = next_marker tc2 + length news3"
    and nn3: "next_node tc3 = next_node tc2 + length news3"
    and tx3: "text tc3 = text tc2"
    and t3: "tree_ok (root tc3) (next_node tc3)"
    and l3: "mset (leaves (root tc3)) = mset (map node tl) + mset (leaves (root tc2))"
    and rt3: "root tc3 = (if end \<noteq> len - 1
                      then replace_child (nid (node M)) (\<lambda>c. [c, Text (node T)]) (root tc2)
                      else root tc2)"
    by blast

  \<comment> \<open>the markers array after the three blocks\<close>
  have old_heap: "heap tc3 q = heap tc q" if "q \<in> set rs1 \<union> set rs2" for q
    using that old_refs [of q] dr h1 h2 h3 nm1 nm2 by auto
  have r3: "heap tc3 r = M" using h3 h2 nm2 nm1 old_refs [of r] by auto
  have n1: "map (heap tc3) news1 = hd"
    using h1 h2 h3 nm1 nm2 old_refs [of r] by (auto simp: news1_def hd_def)
  have n3: "map (heap tc3) news3 = tl"
    using h3 by (auto simp: news3_def tl_def)
  have ms3: "marker_list tc3 = xs @ hd @ M # tl @ ys"
    using m3 old_heap r3 n1 n3 by (simp add: marker_list_def xs_def ys_def)
  have lens: "0 < start \<Longrightarrow> node_length H = start" "node_length M = end - start + 1"
    "end \<noteq> len - 1 \<Longrightarrow> node_length T = len - end - 1"
    using a al
    by (simp_all add: node_length_def H_def M_def T_def length_substr length_substr_from len_def)
  have nl: "node_length (heap tc r) = len" by (simp add: node_length_def len_def cont_def old_def)
  from c have c0: "contiguous 0 xs" and off: "offset (heap tc r) = total_length xs"
    and cy: "contiguous (total_length xs + len) ys"
    by (simp_all add: ms contiguous_append nl)
  have tot: "total_length (hd @ M # tl) = len"
    using lens a by (auto simp: total_length_def hd_def tl_def)
  have c3: "contiguous 0 (marker_list tc3)"
    using c0 cy off lens a
    by (auto simp: ms3 contiguous_append total_length_append hd_def tl_def total_length_def
        H_def M_def T_def)
  have tot3: "total_length (marker_list tc3) = total_length (marker_list tc)"
    using tot by (simp add: ms3 ms total_length_append total_length_def nl)
  have as: "(if dev then assert tc3 else Inr ()) = Inr ()"
    using assert_loop_contiguous [OF c3] by (simp add: assert_def)

  \<comment> \<open>the old node leaves the tree\<close>
  have o3: "old \<in> set (leaves (root tc3))"
    using o0 l1 l2 l3 by (metis mset_eq_setD set_mset_mset union_iff union_single_eq_member add_mset_add_single)
  note rm = removeChild_leaf_ok [OF t3 o3]
  define tc' where "tc' = tc3\<lparr>root := replace_child (nid old) (\<lambda>c. []) (root tc3)\<rparr>"
  have res: "truncate dev tc r start end = (tc', Inr (int (length (rs1 @ news1))))"
    using idx a al s1 s2 s3 as rm(1)
    unfolding truncate_def Let_def old_def [symmetric] cont_def [symmetric] len_def [symmetric] tc'_def
    by simp
  have ml': "marker_list tc' = marker_list tc3" "markers tc' = markers tc3" "heap tc' = heap tc3"
    "text tc' = text tc" "next_marker tc' = next_marker tc3" "next_node tc' = next_node tc3"
    by (simp_all add: tc'_def marker_list_def tx3 tx2 tx1)
  have lt: "\<forall>q\<in>set rs1. q < next_marker tc" "\<forall>q\<in>set rs2. q < next_marker tc" "r < next_marker tc"
    using old_refs by auto
  have hp: "heap_ok tc'"
  proof -
    have "distinct (markers tc3)"
      using dr lt nm1 nm2 by (auto simp: m3 news1_def news3_def)
    moreover have "\<forall>q\<in>set (markers tc3). q < next_marker tc3"
      using lt nm1 nm2 nm3 by (auto simp: m3 news1_def news3_def intro: less_SucI)
    ultimately show ?thesis by (simp add: heap_ok_def ml' list_all_iff)
  qed
  have ne3: "nonempty_nodes (marker_list tc3)"
    using n lens a al by (auto simp: ms ms3 nonempty_nodes_def hd_def tl_def)
  have ix': "index_inv tc'"
    using c3 ne3 tot3 tx by (simp add: index_inv_def ml')
  \<comment> \<open>the nodes of the markers\<close>
  have lv: "mset (leaves (root tc')) = mset (map node (hd @ M # tl)) + (mset (leaves (root tc)) - {#old#})"
  proof -
    have "mset (leaves (root tc3)) = mset (map node (hd @ M # tl)) + mset (leaves (root tc))"
      by (simp add: l1 l2 l3)
    with rm(3) have "mset (leaves (root tc'))
        = mset (map node (hd @ M # tl)) + mset (leaves (root tc)) - {#old#}"
      by (simp add: tc'_def)
    also have "\<dots> = mset (map node (hd @ M # tl)) + (mset (leaves (root tc)) - {#old#})"
      using o0 by (intro diff_union_single_conv) simp
    finally show ?thesis .
  qed
  have new_ids: "\<And>x. x \<in> set (hd @ M # tl) \<Longrightarrow> next_node tc \<le> nid (node x)"
    using nn1 nn2 by (auto simp: hd_def tl_def H_def M_def T_def split: if_splits)
  have dn: "distinct (map node (hd @ M # tl))"
    using nn1 nn2 by (auto simp: hd_def tl_def H_def M_def T_def news1_def)
  have old_ids: "\<And>x. x \<in> set (leaves (root tc)) \<Longrightarrow> nid x < next_node tc"
    using tree_ok_leaf_fresh [OF t0] by simp
  from dm have dnodes: "distinct (map node (xs @ heap tc r # ys))"
    and inl: "\<And>x. x \<in> set xs \<union> set ys \<Longrightarrow> node x \<in> set (leaves (root tc))"
    by (auto simp: dom_ok_def ms list_all_iff)
  have notold: "\<And>x. x \<in> set xs \<union> set ys \<Longrightarrow> node x \<noteq> old"
    using dnodes by (force simp: old_def image_iff)
  have d': "distinct (map node (marker_list tc'))"
    using dnodes dn new_ids inl old_ids
    by (fastforce simp: ml' ms3)
  have in': "list_all (\<lambda>m. node m \<in> set (leaves (root tc'))) (marker_list tc')"
  proof -
    have "node x \<in># mset (leaves (root tc'))" if "x \<in> set (marker_list tc')" for x
    proof (cases "x \<in> set (hd @ M # tl)")
      case True
      then show ?thesis unfolding lv by auto
    next
      case False
      with that have xy: "x \<in> set xs \<union> set ys" by (auto simp: ml' ms3)
      from inl [OF xy] notold [OF xy] have "node x \<in> set (remove1 old (leaves (root tc)))"
        by (simp add: in_set_remove1)
      then have "node x \<in># mset (leaves (root tc)) - {#old#}"
        by (metis mset_remove1 set_mset_mset)
      then show ?thesis unfolding lv by simp
    qed
    then show ?thesis by (simp add: list_all_iff)
  qed
  have dom': "dom_ok tc'"
    using rm(2) d' in' by (simp add: dom_ok_def tc'_def tree_ok_def)
  have at: "marker_at tc' (int (length (rs1 @ news1))) = Some (heap tc' r)"
    by (simp add: marker_at_def at_index_def ml' m3 nth_append)
  have sub: "set (markers tc) \<subseteq> set (markers tc')"
    by (auto simp: m ml' m3)
  have others: "\<forall>q\<in>set (markers tc). q \<noteq> r \<longrightarrow> heap tc' q = heap tc q"
    using old_heap by (auto simp: m ml')
  have keep: "\<forall>y\<in>set (leaves (root tc)). y \<noteq> old \<longrightarrow> y \<in> set (leaves (root tc'))"
  proof (intro ballI impI)
    fix y assume "y \<in> set (leaves (root tc))" "y \<noteq> old"
    then have "y \<in> set (remove1 old (leaves (root tc)))" by (simp add: in_set_remove1)
    then have "y \<in># mset (leaves (root tc)) - {#old#}" by (metis mset_remove1 set_mset_mset)
    then have "y \<in># mset (leaves (root tc'))" unfolding lv by simp
    then show "y \<in> set (leaves (root tc'))" by simp
  qed
  \<comment> \<open>the children of the parent of the old node\<close>
  define before where "before = map node hd"
  define after where "after = map node tl"
  have d0: "distinct (ids (root tc))" and d1: "distinct (ids (root tc1))"
    and d2: "distinct (ids (root tc2))" and d3: "distinct (ids (root tc3))"
    using t0 t1 t2 t3 by (simp_all add: tree_ok_def)
  have par: "find_node p (root tc')
      = Some (Element p tag (A @ map Text before @ [Text (node M)] @ map Text after @ B))"
    if f0: "find_node p (root tc) = Some (Element p tag (A @ Text old # B))" for p tag A B
  proof -
    have f1: "find_node p (root tc1) = Some (Element p tag ((A @ map Text before) @ Text old # B))"
    proof (cases "0 < start")
      case True
      with parent_replace(1) [OF d0 f0, of "\<lambda>c. [Text (node H), c]"] show ?thesis
        by (simp add: rt1 before_def hd_def)
    next
      case False
      with f0 show ?thesis by (simp add: rt1 before_def hd_def)
    qed
    from parent_replace(1) [OF d1 f1, of "\<lambda>c. [Text (node M), c]"]
    have f2: "find_node p (root tc2)
        = Some (Element p tag ((A @ map Text before) @ Text (node M) # (Text old # B)))"
      by (simp add: rt2)
    have f3: "find_node p (root tc3)
        = Some (Element p tag ((A @ map Text before @ [Text (node M)] @ map Text after) @ Text old # B))"
    proof (cases "end \<noteq> len - 1")
      case True
      with parent_replace(1) [OF d2 f2, of "\<lambda>c. [c, Text (node T)]"] show ?thesis
        by (simp add: rt3 after_def tl_def)
    next
      case False
      with f2 show ?thesis by (simp add: rt3 after_def tl_def)
    qed
    from parent_replace(1) [OF d3 f3, of "\<lambda>c. []"] show ?thesis
      by (simp add: tc'_def)
  qed
  have bz: "start = 0 \<longrightarrow> before = []" and az: "end = len - 1 \<longrightarrow> after = []"
    by (simp_all add: before_def after_def hd_def tl_def)
  have "\<exists>before after.
           (start = 0 \<longrightarrow> before = [])
         \<and> (end = len - 1 \<longrightarrow> after = [])
         \<and> (\<forall>p tag A B. find_node p (root tc) = Some (Element p tag (A @ Text old # B)) \<longrightarrow>
               find_node p (root tc')
                 = Some (Element p tag (A @ map Text before @ [Text (node M)] @ map Text after @ B)))"
    using bz az par by blast
  then show ?thesis
    using res hp ix' dom' tot3 ml'(4) at r3 sub others keep
    by (simp add: tc_inv_def ml' M_def cont_def old_def len_def)
qed


lemma reachable_tc_inv: "reachable dev tc \<Longrightarrow> tc_inv tc"
proof (induction rule: reachable.induct)
  case (parsed r)
  then show ?case by (rule parse_tc_inv)
next
  case (truncated tc r start "end")
  from truncate_valid [OF truncated.IH truncated.hyps(2-5), of dev] show ?case by auto
qed

text \<open>Every offset at or past the end of the text is answered with the last marker.\<close>

lemma contiguous_upper:
  "contiguous a ms \<Longrightarrow> m \<in> set ms \<Longrightarrow> offset m + node_length m \<le> a + total_length ms"
proof (induction ms arbitrary: a)
  case Nil then show ?case by simp
next
  case (Cons x xs)
  show ?case
  proof (cases "m = x")
    case True
    with Cons.prems total_length_nonneg [of xs] show ?thesis
      by (simp add: total_length_def)
  next
    case False
    with Cons.prems have "m \<in> set xs" "contiguous (a + node_length x) xs" by simp_all
    from Cons.IH [OF this(2,1)] show ?thesis by (simp add: total_length_def)
  qed
qed

lemma indexOf_past_end:
  assumes i: "index_inv tc" and ne: "markers tc \<noteq> []" and o: "int (length (text tc)) \<le> ofs"
  shows "indexOf tc ofs = Inr (int (length (markers tc)) - 1)"
proof -
  let ?ms = "marker_list tc"
  let ?n = "int (length (markers tc))"
  from i have c: "contiguous 0 ?ms" and n: "nonempty_nodes ?ms"
    and t: "int (length (text tc)) = total_length ?ms" by (simp_all add: index_inv_def)
  have len: "length ?ms = length (markers tc)" by (simp add: marker_list_def)
  from ne have pos: "0 < ?n" by simp
  have s: "sorted_wrt (\<lambda>x y. offset x < offset y) ?ms" by (rule contiguous_strict [OF c n])
  have below: "offset (?ms ! nat k) < ofs" if "0 \<le> k" "k < ?n" for k
  proof -
    from that len have m: "?ms ! nat k \<in> set ?ms" by auto
    then have "0 < node_length (?ms ! nat k)" using n by (auto simp: nonempty_nodes_def list_all_iff)
    with contiguous_upper [OF c m] t o show ?thesis by simp
  qed
  from indexOf_loop_lower_bound [OF s, of 0 "?n - 1" ofs] pos
  obtain k where k: "indexOf_loop tc ofs 0 (?n - 1) = Inr k" "0 \<le> k" "k < ?n"
    "k = ?n - 1 \<or> ofs \<le> offset (?ms ! nat k)"
    by auto
  from below [OF k(2,3)] k(4) have "k = ?n - 1" by auto
  moreover have "marker_at tc k = Some (?ms ! nat k)" using k by (intro marker_at_nth) auto
  ultimately show ?thesis using k(1) below [OF k(2,3)] by (simp add: indexOf_def)
qed

lemma indexOf_nonneg:
  assumes i: "index_inv tc" and ne: "markers tc \<noteq> []" and o: "0 \<le> ofs"
  shows "\<exists>k. indexOf tc ofs = Inr k"
proof (cases "ofs < int (length (text tc))")
  case True
  with i o indexOf_in_range [of tc ofs] show ?thesis by (auto simp: index_inv_def)
next
  case False
  with indexOf_past_end [OF i ne, of ofs] show ?thesis by simp
qed

section \<open>Lemmas: the renderer\<close>

lemma node_id_replace_child: "node_id (replace_child r g t) = node_id t"
  by (cases t) auto

lemma add_child_absent: "p \<notin> set (ids t) \<Longrightarrow> add_child p c t = t"
  by (induction t) (auto intro: map_idI)

lemma add_forest_absent: "p \<notin> set (concat (map ids cs)) \<Longrightarrow> map (add_child p c) cs = cs"
  by (auto intro: map_idI add_child_absent)

lemma leaf_split:
  assumes d: "distinct (concat (map ids ch))" and x: "x \<in> set (concat (map leaves ch))"
  obtains cs1 c cs2 where "ch = cs1 @ c # cs2" and "x \<in> set (leaves c)"
    and "nid x \<notin> set (concat (map ids cs1))" and "nid x \<notin> set (concat (map ids cs2))"
    and "(node_id c = nid x) = (c = Text x)"
proof -
  from replace_forest_leaf [OF d x, of "\<lambda>c. []"] obtain cs1 c cs2 where
    e: "ch = cs1 @ c # cs2" "x \<in> set (leaves c)"
      "nid x \<notin> set (concat (map ids cs1))" "nid x \<notin> set (concat (map ids cs2))"
    by blast
  from d e(1) have "distinct (ids c)" by simp
  from leaf_unique [OF e(2) _ this] have "(node_id c = nid x) = (c = Text x)" by auto
  with e show ?thesis by (rule that)
qed

lemma wrap_net_effect:
  assumes "distinct (ids t)" and "x \<in> set (leaves t)" and "t \<noteq> Text x" and "s \<notin> set (ids t)"
  shows "appendChild s (Text x) (replace_child (nid x) (\<lambda>c. [Element s tg [], c]) t)
     = replace_child (nid x) (\<lambda>c. [Element s tg [c]]) t"
  using assms
proof (induction t)
  case (Text y) then show ?case by simp
next
  case (Other n) then show ?case by simp
next
  case (Element n tag ch)
  from Element.prems have d: "distinct (concat (map ids ch))" and x: "x \<in> set (concat (map leaves ch))"
    and ns: "n \<noteq> s" and sch: "s \<notin> set (concat (map ids ch))"
    and nn: "n \<notin> set (concat (map ids ch))"
    by auto
  from leaf_split [OF d x] obtain cs1 c cs2 where
    e: "ch = cs1 @ c # cs2" "x \<in> set (leaves c)"
      "nid x \<notin> set (concat (map ids cs1))" "nid x \<notin> set (concat (map ids cs2))"
      "(node_id c = nid x) = (c = Text x)"
    by blast
  have xs: "nid x \<noteq> s" using sch e(1,2) by (auto dest: leaves_ids)
  have s1: "s \<notin> set (concat (map ids cs1))" and s2: "s \<notin> set (concat (map ids cs2))"
    and sc: "s \<notin> set (ids c)"
    using sch e(1) by auto
  have dc: "distinct (ids c)" using d e(1) by simp
  have cin: "c \<in> set ch" using e(1) by simp
  show ?case
  proof (cases "c = Text x")
    case True
    then show ?thesis
      using e ns xs s1 s2
      by (simp add: appendChild_def replace_forest_unchanged add_forest_absent)
  next
    case False
    with e(5) have nc: "node_id c \<noteq> nid x" by simp
    from Element.IH [OF cin dc e(2) False sc]
    have ih: "add_child s (Text x) (replace_child (nid x) (\<lambda>c. []) (replace_child (nid x) (\<lambda>c. [Element s tg [], c]) c))
        = replace_child (nid x) (\<lambda>c. [Element s tg [c]]) c"
      by (simp add: appendChild_def)
    show ?thesis
      using e nc ns s1 s2 ih
      by (simp add: appendChild_def replace_forest_unchanged add_forest_absent node_id_replace_child)
  qed
qed


lemma createHighlightElement_ok:
  assumes inv: "tc_inv tc" and x: "x \<in> set (leaves (root tc))"
  shows "\<exists>tc'. createHighlightElement x tc = (tc', Inr (next_node tc))
     \<and> tc_inv tc' \<and> markers tc' = markers tc \<and> heap tc' = heap tc
     \<and> set (leaves (root tc')) = set (leaves (root tc))
     \<and> (\<forall>p tag A B. find_node p (root tc) = Some (Element p tag (A @ Text x # B)) \<longrightarrow>
           find_node p (root tc')
             = Some (Element p tag (A @ [Element (next_node tc) ''SPAN'' [Text x]] @ B)))"
proof -
  let ?s = "next_node tc"
  let ?t = "replace_child (nid x) (\<lambda>c. [Element ?s ''SPAN'' [c]]) (root tc)"
  define tc' where "tc' = tc\<lparr>next_node := Suc ?s, root := ?t\<rparr>"
  from inv have h: "heap_ok tc" and ix: "index_inv tc" and dm: "dom_ok tc"
    by (simp_all add: tc_inv_def)
  from dm have e: "is_element (root tc)" and d: "distinct (ids (root tc))"
    and fr: "list_all (\<lambda>i. i < ?s) (ids (root tc))"
    by (simp_all add: dom_ok_def)
  have ok: "tree_ok (root tc) ?s" using e d fr by (simp add: tree_ok_def)
  from e have nt: "root tc \<noteq> Text x" by (rule is_element_not_Text)
  have k: "nid x \<in> set (kids (root tc))" by (rule leaves_kids [OF x nt])
  have sn: "?s \<notin> set (ids (root tc))" using fr by (auto simp: list_all_iff)
  have ib: "insertBefore (Element ?s ''SPAN'' []) (nid x) (root tc)
      = Inr (replace_child (nid x) (\<lambda>c. [Element ?s ''SPAN'' [], c]) (root tc))"
    using k by (simp add: insertBefore_def)
  have res: "createHighlightElement x tc = (tc', Inr ?s)"
    using ib wrap_net_effect [OF d x nt sn, of "''SPAN''"]
    by (simp add: createHighlightElement_def Let_def tc'_def)
  have xi: "nid x \<in># mset (ids (root tc))" using leaves_ids [OF x] by simp
  have "mset (ids ?t) = add_mset ?s (mset (ids (root tc)))"
    using replace_child_leaf_ids [OF d x nt, of "\<lambda>c. [Element ?s ''SPAN'' [c]]"] xi by simp
  from tree_ok_mset [OF ok _ this] have ok': "tree_ok ?t (Suc ?s)"
    using e by (simp add: is_element_replace_child)
  have xl: "x \<in># mset (leaves (root tc))" using x by simp
  have lv: "mset (leaves ?t) = mset (leaves (root tc))"
    using replace_child_leaf_leaves [OF d x nt, of "\<lambda>c. [Element ?s ''SPAN'' [c]]"] xl by simp
  then have ls: "set (leaves ?t) = set (leaves (root tc))" by (rule mset_eq_setD)
  have ml: "marker_list tc' = marker_list tc" by (simp add: tc'_def marker_list_def)
  have "dom_ok tc'"
    using dm ok' ls by (simp add: dom_ok_def ml tree_ok_def) (simp add: tc'_def)
  moreover have "heap_ok tc'" using h by (simp add: heap_ok_def tc'_def)
  moreover have "index_inv tc'" using ix by (simp add: index_inv_def ml) (simp add: tc'_def)
  ultimately have inv': "tc_inv tc'" by (simp add: tc_inv_def)
  have par: "find_node p (root tc') = Some (Element p tag (A @ [Element ?s ''SPAN'' [Text x]] @ B))"
    if "find_node p (root tc) = Some (Element p tag (A @ Text x # B))" for p tag A B
    using parent_replace(1) [OF d that, of "\<lambda>c. [Element ?s ''SPAN'' [c]]"]
    by (simp add: tc'_def)
  from res inv' ls par show ?thesis by (auto simp: tc'_def)
qed


lemma distinct_leaf_ids: "distinct (ids t) \<Longrightarrow> distinct (map nid (leaves t))"
  by (rule distinct_sub_mset [OF leaves_sub_ids])

lemma marker_node_in_leaves:
  "tc_inv tc \<Longrightarrow> r \<in> set (markers tc) \<Longrightarrow> node (heap tc r) \<in> set (leaves (root tc))"
  by (auto simp: tc_inv_def dom_ok_def list_all_iff marker_list_def)

lemma surroundWhole_each_single:
  assumes "tc_inv tc" and "x \<in> set (leaves (root tc))"
  shows "\<exists>tc'. surroundWhole_each [x] tc = (tc', Inr [next_node tc])
     \<and> tc_inv tc' \<and> markers tc' = markers tc \<and> heap tc' = heap tc
     \<and> set (leaves (root tc')) = set (leaves (root tc))
     \<and> (\<forall>p tag A B. find_node p (root tc) = Some (Element p tag (A @ Text x # B)) \<longrightarrow>
           find_node p (root tc')
             = Some (Element p tag (A @ [Element (next_node tc) ''SPAN'' [Text x]] @ B)))"
proof -
  from createHighlightElement_ok [OF assms] obtain tc' where
    c: "createHighlightElement x tc = (tc', Inr (next_node tc))" and
    r: "tc_inv tc' \<and> markers tc' = markers tc \<and> heap tc' = heap tc
     \<and> set (leaves (root tc')) = set (leaves (root tc))
     \<and> (\<forall>p tag A B. find_node p (root tc) = Some (Element p tag (A @ Text x # B)) \<longrightarrow>
           find_node p (root tc')
             = Some (Element p tag (A @ [Element (next_node tc) ''SPAN'' [Text x]] @ B)))"
    by blast
  from c have "surroundWhole_each [x] tc = (tc', Inr [next_node tc])"
    by (simp add: surroundWhole_def)
  with r show ?thesis by blast
qed

lemma surround_range_ok:
  assumes inv: "tc_inv tc" and r: "r \<in> set (markers tc)"
    and a: "0 \<le> start" "start \<le> fin" "fin < int (length (nodeValue (node (heap tc r))))"
    and e: "eopt = None \<and> fin = int (length (nodeValue (node (heap tc r)))) - 1 \<or> eopt = Some fin"
  shows "\<exists>tc' el m before after.
       surround_range dev \<lparr>marker = r, offset = k\<rparr> start eopt tc = (tc', Inr el)
     \<and> tc_inv tc'
     \<and> nodeValue m = substr (nodeValue (node (heap tc r))) start (fin - start + 1)
     \<and> set (markers tc) \<subseteq> set (markers tc')
     \<and> (\<forall>q\<in>set (markers tc). q \<noteq> r \<longrightarrow> heap tc' q = heap tc q)
     \<and> (\<forall>y\<in>set (leaves (root tc)). y \<noteq> node (heap tc r) \<longrightarrow> y \<in> set (leaves (root tc')))
     \<and> (start = 0 \<longrightarrow> before = [])
     \<and> (fin = int (length (nodeValue (node (heap tc r)))) - 1 \<longrightarrow> after = [])
     \<and> (\<forall>p tag A B. find_node p (root tc) = Some (Element p tag (A @ Text (node (heap tc r)) # B)) \<longrightarrow>
           find_node p (root tc')
             = Some (Element p tag (A @ map Text before @ [Element el ''SPAN'' [Text m]] @ map Text after @ B)))"
proof -
  have en: "(case eopt of None \<Rightarrow> int (length (nodeValue (node (heap tc r)))) - 1 | Some e \<Rightarrow> e) = fin"
    using e by auto
  from truncate_valid [OF inv r a, of dev] obtain tc1 i where
    t: "truncate dev tc r start fin = (tc1, Inr i)" and inv1: "tc_inv tc1"
    and nv: "nodeValue (node (heap tc1 r)) = substr (nodeValue (node (heap tc r))) start (fin - start + 1)"
    and sub: "set (markers tc) \<subseteq> set (markers tc1)"
    and oth: "\<forall>q\<in>set (markers tc). q \<noteq> r \<longrightarrow> heap tc1 q = heap tc q"
    and keep: "\<forall>y\<in>set (leaves (root tc)). y \<noteq> node (heap tc r) \<longrightarrow> y \<in> set (leaves (root tc1))"
    and ex: "\<exists>before after.
           (start = 0 \<longrightarrow> before = [])
         \<and> (fin = int (length (nodeValue (node (heap tc r)))) - 1 \<longrightarrow> after = [])
         \<and> (\<forall>p tag A B. find_node p (root tc) = Some (Element p tag (A @ Text (node (heap tc r)) # B)) \<longrightarrow>
               find_node p (root tc1)
                 = Some (Element p tag (A @ map Text before @ [Text (node (heap tc1 r))] @ map Text after @ B)))"
    by blast
  from ex obtain before after where bz: "start = 0 \<longrightarrow> before = []"
    and az: "fin = int (length (nodeValue (node (heap tc r)))) - 1 \<longrightarrow> after = []"
    and par: "\<And>p tag A B. find_node p (root tc) = Some (Element p tag (A @ Text (node (heap tc r)) # B)) \<Longrightarrow>
               find_node p (root tc1)
                 = Some (Element p tag (A @ map Text before @ [Text (node (heap tc1 r))] @ map Text after @ B))"
    by blast
  let ?m = "node (heap tc1 r)"
  from sub r have r1: "r \<in> set (markers tc1)" by auto
  have min: "?m \<in> set (leaves (root tc1))" by (rule marker_node_in_leaves [OF inv1 r1])
  from createHighlightElement_ok [OF inv1 min] obtain tc2 where
    c: "createHighlightElement ?m tc1 = (tc2, Inr (next_node tc1))" and inv2: "tc_inv tc2"
    and m2: "markers tc2 = markers tc1" and h2: "heap tc2 = heap tc1"
    and l2: "set (leaves (root tc2)) = set (leaves (root tc1))"
    and par2: "\<And>p tag A B. find_node p (root tc1) = Some (Element p tag (A @ Text ?m # B)) \<Longrightarrow>
           find_node p (root tc2)
             = Some (Element p tag (A @ [Element (next_node tc1) ''SPAN'' [Text ?m]] @ B))"
    by blast
  have res: "surround_range dev \<lparr>marker = r, offset = k\<rparr> start eopt tc = (tc2, Inr (next_node tc1))"
    using t c e by (auto simp: surround_range_def)
  have par': "find_node p (root tc2)
      = Some (Element p tag (A @ map Text before @ [Element (next_node tc1) ''SPAN'' [Text ?m]] @ map Text after @ B))"
    if f: "find_node p (root tc) = Some (Element p tag (A @ Text (node (heap tc r)) # B))" for p tag A B
  proof -
    from par [OF f] have "find_node p (root tc1)
        = Some (Element p tag ((A @ map Text before) @ Text ?m # (map Text after @ B)))" by simp
    from par2 [OF this] show ?thesis by simp
  qed
  show ?thesis
    using res inv2 nv sub oth keep bz az par' m2 h2 l2
    by (intro exI [of _ tc2] exI [of _ "next_node tc1"] exI [of _ ?m] exI [of _ before] exI [of _ after])
       simp
qed


section \<open>Properties of the text index\<close>

text \<open>
  C10: \<open>indexOf\<close> needs a non-empty markers array. On an empty one (after construction,
  after \<open>dispose\<close>, after parsing a root with no non-empty text node) every call reads
  \<open>markers[0]\<close> of an empty array and fails with a TypeError, for any offset, not with the
  error of an invalid offset.
\<close>

theorem indexOf_empty_markers_TypeError:
  "(markers tc = [] \<longrightarrow> indexOf tc ofs = Inl TypeError)
   \<and> indexOf (constructor r) ofs = Inl TypeError
   \<and> indexOf (dispose tc) ofs = Inl TypeError
   \<and> (list_all (\<lambda>t. nodeValue t = []) (leaves (root tc)) \<longrightarrow>
        indexOf (fst (parse dev tc)) ofs = Inl TypeError)"
proof -
  have "indexOf (fst (parse dev tc)) ofs = Inl TypeError"
    if e: "list_all (\<lambda>t. nodeValue t = []) (leaves (root tc))"
  proof -
    obtain tc' where p: "parse dev tc = (tc', Inr ())"
      and ms: "marker_list tc' = expected_markers 0 (filter (\<lambda>t. nodeValue t \<noteq> []) (leaves (root tc)))"
      by (rule parse_result [of dev tc])
    from e have "filter (\<lambda>t. nodeValue t \<noteq> []) (leaves (root tc)) = []"
      by (simp add: list_all_iff filter_empty_conv)
    with ms have "markers tc' = []" by (simp add: marker_list_def)
    with p show ?thesis by (simp add: indexOf_empty)
  qed
  then show ?thesis by (simp add: indexOf_empty constructor_def dispose_def)
qed

theorem indexOf_empty_markers_TypeError_witness:
  "markers (constructor example_doc) = []
   \<and> indexOf (constructor example_doc) 0 = Inl TypeError
   \<and> indexOf (dispose example_index) 3 = Inl TypeError
   \<and> list_all (\<lambda>t. nodeValue t = []) (leaves (root (constructor (Element 0 ''P'' [Text (TextNode 1 [])]))))
   \<and> indexOf (fst (parse False (constructor (Element 0 ''P'' [Text (TextNode 1 [])])))) 0 = Inl TypeError"
  using indexOf_empty_markers_TypeError [of "constructor example_doc" 0 example_doc False]
    indexOf_empty_markers_TypeError [of example_index 3 example_doc False]
    indexOf_empty_markers_TypeError [of "constructor (Element 0 ''P'' [Text (TextNode 1 [])])" 0 example_doc False]
  by (simp add: constructor_def)

text \<open>
  C2 (the code departs from it): \<open>indexOf\<close> is to fail for an offset at or past the end of
  the flattened text. On the index of the single text node "abc", whose text has length 3, the
  offsets 3 and 100 are answered with marker 0. (In general \<open>indexOf_past_end\<close>; a negative
  offset does fail, \<open>indexOf_negative\<close>.)
\<close>

theorem indexOf_past_end_returns_last_marker:
  "length (text (fst (parse True (constructor (Element 0 ''P'' [Text (TextNode 1 ''abc'')]))))) = 3
   \<and> indexOf (fst (parse True (constructor (Element 0 ''P'' [Text (TextNode 1 ''abc'')])))) 3 = Inr 0
   \<and> indexOf (fst (parse True (constructor (Element 0 ''P'' [Text (TextNode 1 ''abc'')])))) 100 = Inr 0"
  by code_simp

text \<open>
  C3: on an index with contiguous markers (as parsing builds it), for every offset \<open>ofs\<close>
  with \<open>0 \<le> ofs < length text\<close>, \<open>indexOf ofs\<close> returns an index \<open>i\<close> whose marker \<open>m\<close>
  satisfies \<open>offset m \<le> ofs < offset m + length (nodeValue (node m))\<close>.
\<close>

theorem indexOf_finds_containing_marker:
  assumes "index_inv tc" and "0 \<le> ofs" and "ofs < int (length (text tc))"
  shows "\<exists>i m. indexOf tc ofs = Inr i \<and> marker_at tc i = Some m
     \<and> offset m \<le> ofs \<and> ofs < offset m + int (length (nodeValue (node m)))"
proof -
  from assms have c: "contiguous 0 (marker_list tc)" and n: "nonempty_nodes (marker_list tc)"
    and o: "ofs < total_length (marker_list tc)"
    by (simp_all add: index_inv_def)
  from indexOf_in_range [OF c n assms(2) o] obtain i where
    i: "indexOf tc ofs = Inr i" "0 \<le> i" "i < int (length (markers tc))"
      "offset (marker_list tc ! nat i) \<le> ofs"
      "ofs < offset (marker_list tc ! nat i) + node_length (marker_list tc ! nat i)"
    by blast
  from marker_at_nth [OF i(2,3)] i show ?thesis by (auto simp: node_length_def)
qed

theorem indexOf_finds_containing_marker_witness:
  "index_inv example_index \<and> (0::int) \<le> 10 \<and> 10 < int (length (text example_index))
   \<and> (\<exists>i m. indexOf example_index 10 = Inr i \<and> marker_at example_index i = Some m
     \<and> offset m \<le> 10 \<and> 10 < offset m + int (length (nodeValue (node m))))"
proof -
  have h: "index_inv example_index" by code_simp
  have l: "10 < int (length (text example_index))" by code_simp
  from indexOf_finds_containing_marker [OF h _ l] h l show ?thesis by simp
qed

text \<open>
  C8: after \<open>parse\<close> of an element root, which never fails, the flattened text is the
  concatenation in document order of the contributions of the non-empty text nodes (spaces
  for a node whose parent is never rendered); the markers are exactly the non-empty text
  nodes, in that order, each at the offset where its contribution starts; and when there is
  a marker, the text is as long as the last marker's offset plus its node's length.
\<close>

theorem parse_flattened_text_and_markers:
  assumes "is_element (root tc)"
  shows "snd (parse dev tc) = Inr ()
     \<and> text (fst (parse dev tc)) = flattened (root tc)
     \<and> marker_list (fst (parse dev tc))
         = expected_markers 0 (filter (\<lambda>t. nodeValue t \<noteq> []) (leaves (root tc)))
     \<and> map node (marker_list (fst (parse dev tc)))
         = filter (\<lambda>t. nodeValue t \<noteq> []) (leaves (root tc))
     \<and> (marker_list (fst (parse dev tc)) \<noteq> [] \<longrightarrow>
          int (length (text (fst (parse dev tc))))
            = offset (last (marker_list (fst (parse dev tc))))
              + int (length (nodeValue (node (last (marker_list (fst (parse dev tc))))))))"
proof -
  obtain tc' where p: "parse dev tc = (tc', Inr ())"
    and ms: "marker_list tc' = expected_markers 0 (filter (\<lambda>t. nodeValue t \<noteq> []) (leaves (root tc)))"
    and t: "text tc' = flattened (root tc)" and i: "index_inv tc'"
    by (rule parse_result [of dev tc])
  have "int (length (text tc')) = offset (last (marker_list tc')) + node_length (last (marker_list tc'))"
    if "marker_list tc' \<noteq> []"
    using contiguous_last [OF _ that, of 0] i by (simp add: index_inv_def)
  with p ms t show ?thesis by (simp add: node_expected_markers node_length_def)
qed

theorem parse_flattened_text_and_markers_witness:
  "is_element (root (constructor example_doc))
   \<and> snd (parse True (constructor example_doc)) = Inr ()
   \<and> text (fst (parse True (constructor example_doc))) = ''Positive      match''
   \<and> map node (marker_list (fst (parse True (constructor example_doc))))
       = [TextNode 1 ''Positive '', TextNode 3 ''x();'', TextNode 5 '' match'']
   \<and> marker_list (fst (parse True (constructor example_doc))) \<noteq> []
   \<and> int (length (text (fst (parse True (constructor example_doc)))))
       = offset (last (marker_list (fst (parse True (constructor example_doc)))))
         + int (length (nodeValue (node (last (marker_list (fst (parse True (constructor example_doc))))))))"
proof -
  have e: "is_element (root (constructor example_doc))" by code_simp
  have f: "flattened (root (constructor example_doc)) = ''Positive      match''" by code_simp
  have l: "filter (\<lambda>t. nodeValue t \<noteq> []) (leaves (root (constructor example_doc)))
      = [TextNode 1 ''Positive '', TextNode 3 ''x();'', TextNode 5 '' match'']" by code_simp
  from parse_flattened_text_and_markers [OF e, of True] e f l show ?thesis by simp
qed

text \<open>
  C1: on every index reached from a fresh parse by valid \<open>truncate\<close> calls, the markers are
  sorted ascending by offset and contiguous (each marker starts where the node of the one
  before ends), and every further valid \<open>truncate\<close> returns an index and leaves the sum of the
  lengths of the marker nodes as it was.
\<close>

theorem truncate_keeps_markers_sorted_contiguous:
  assumes "reachable dev tc"
  shows "sorted_wrt (<) (map offset (marker_list tc))
     \<and> (\<forall>i. Suc i < length (marker_list tc) \<longrightarrow>
          offset (marker_list tc ! Suc i)
            = offset (marker_list tc ! i) + int (length (nodeValue (node (marker_list tc ! i)))))
     \<and> (\<forall>r start end. r \<in> set (markers tc) \<and> 0 \<le> start \<and> start \<le> end
            \<and> end < int (length (nodeValue (node (heap tc r)))) \<longrightarrow>
          (\<exists>i. snd (truncate dev tc r start end) = Inr i)
          \<and> total_length (marker_list (fst (truncate dev tc r start end)))
              = total_length (marker_list tc))"
proof -
  from assms have inv: "tc_inv tc" by (rule reachable_tc_inv)
  then have c: "contiguous 0 (marker_list tc)" and n: "nonempty_nodes (marker_list tc)"
    by (simp_all add: tc_inv_def index_inv_def)
  have "sorted_wrt (<) (map offset (marker_list tc))"
    using contiguous_strict [OF c n] by (simp add: sorted_wrt_map)
  moreover have "offset (marker_list tc ! Suc i)
      = offset (marker_list tc ! i) + int (length (nodeValue (node (marker_list tc ! i))))"
    if "Suc i < length (marker_list tc)" for i
    using contiguous_nth [OF c that] by (simp add: node_length_def)
  moreover have "(\<exists>i. snd (truncate dev tc r start end) = Inr i)
      \<and> total_length (marker_list (fst (truncate dev tc r start end))) = total_length (marker_list tc)"
    if "r \<in> set (markers tc)" "0 \<le> start" "start \<le> end"
      "end < int (length (nodeValue (node (heap tc r))))" for r start "end"
    using truncate_valid [OF inv that, of dev] by auto
  ultimately show ?thesis by blast
qed

theorem truncate_keeps_markers_sorted_contiguous_witness:
  "reachable True (fst (truncate True example_index 0 2 4))
   \<and> sorted_wrt (<) (map offset (marker_list (fst (truncate True example_index 0 2 4))))
   \<and> map offset (marker_list (fst (truncate True example_index 0 2 4))) = [0, 2, 5, 9, 13]
   \<and> 4 \<in> set (markers (fst (truncate True example_index 0 2 4)))
   \<and> (\<exists>i. snd (truncate True (fst (truncate True example_index 0 2 4)) 4 1 2) = Inr i)
   \<and> total_length (marker_list (fst (truncate True (fst (truncate True example_index 0 2 4)) 4 1 2)))
       = total_length (marker_list (fst (truncate True example_index 0 2 4)))"
proof -
  have e: "is_element example_doc" "distinct (ids example_doc)" by code_simp+
  have r0: "reachable True example_index"
    unfolding example_index_def by (rule reachable.parsed [OF e])
  have v0: "0 \<in> set (markers example_index)"
    "(4::int) < int (length (nodeValue (node (heap example_index 0))))" by code_simp+
  have r1: "reachable True (fst (truncate True example_index 0 2 4))"
    by (rule reachable.truncated [OF r0 v0(1) _ _ v0(2)]) simp_all
  have v1: "4 \<in> set (markers (fst (truncate True example_index 0 2 4)))"
    "(2::int) < int (length (nodeValue (node (heap (fst (truncate True example_index 0 2 4)) 4))))"
    "map offset (marker_list (fst (truncate True example_index 0 2 4))) = [0, 2, 5, 9, 13]"
    by code_simp+
  from truncate_keeps_markers_sorted_contiguous [OF r1] v1 r1 show ?thesis by simp
qed

text \<open>
  C9: \<open>truncate\<close> looks up the offset of its Marker with \<open>indexOf\<close> before it checks its
  arguments. A \<open>truncate\<close> whose arguments violate \<open>0 \<le> start \<le> end < length\<close> of the
  node's text therefore always throws and leaves the whole state (markers array, Marker
  objects, document tree) as it was; what is thrown is the validation error (the one of
  the first check that fails) when the index is well-formed and not empty and the offset of
  the Marker is not negative, in particular when the Marker belongs to the index; on an
  empty markers array it is the \<open>TypeError\<close> of \<open>indexOf\<close>.
\<close>

theorem truncate_invalid_arguments_unchanged:
  assumes "\<not> (0 \<le> start \<and> start \<le> end \<and> end < int (length (nodeValue (node (heap tc r)))))"
  shows "(\<exists>e. truncate dev tc r start end = (tc, Inl e))
     \<and> (index_inv tc \<and> r \<in> set (markers tc) \<longrightarrow>
          truncate dev tc r start end = (tc, Inl (Error ''Invalid truncation parameters''))
          \<or> truncate dev tc r start end = (tc, Inl (Error ''End offset overflow'')))
     \<and> (index_inv tc \<and> markers tc \<noteq> [] \<and> 0 \<le> offset (heap tc r) \<longrightarrow>
          truncate dev tc r start end
            = (tc, Inl (Error (if start < 0 \<or> end < 0 \<or> start > end
                               then ''Invalid truncation parameters'' else ''End offset overflow''))))
     \<and> (markers tc = [] \<longrightarrow> truncate dev tc r start end = (tc, Inl TypeError))"
proof -
  have 1: "\<exists>e. truncate dev tc r start end = (tc, Inl e)"
    using assms by (cases "indexOf tc (offset (heap tc r))") (auto simp: truncate_def Let_def)
  have 2: "truncate dev tc r start end = (tc, Inl (Error ''Invalid truncation parameters''))
      \<or> truncate dev tc r start end = (tc, Inl (Error ''End offset overflow''))"
    if i: "index_inv tc" and r: "r \<in> set (markers tc)"
  proof -
    from r obtain rs1 rs2 where m: "markers tc = rs1 @ r # rs2" by (auto dest: split_list)
    from i have "indexOf tc (offset (heap tc r)) = Inr (int (length rs1))"
      by (intro indexOf_of_marker [OF _ _ m]) (simp_all add: index_inv_def)
    with assms show ?thesis by (auto simp: truncate_def Let_def)
  qed
  have 3: "truncate dev tc r start end
            = (tc, Inl (Error (if start < 0 \<or> end < 0 \<or> start > end
                               then ''Invalid truncation parameters'' else ''End offset overflow'')))"
    if "index_inv tc" "markers tc \<noteq> []" "0 \<le> offset (heap tc r)"
  proof -
    from indexOf_nonneg [OF that] obtain k where "indexOf tc (offset (heap tc r)) = Inr k" ..
    with assms show ?thesis by (auto simp: truncate_def Let_def)
  qed
  have 4: "truncate dev tc r start end = (tc, Inl TypeError)" if "markers tc = []"
    using indexOf_empty [OF that] by (simp add: truncate_def Let_def)
  from 1 2 3 4 show ?thesis by blast
qed

theorem truncate_invalid_arguments_unchanged_witness:
  "\<not> (0 \<le> (3::int) \<and> (3::int) \<le> 9 \<and> 9 < int (length (nodeValue (node (heap example_index 0)))))
   \<and> index_inv example_index \<and> 0 \<in> set (markers example_index)
   \<and> markers example_index \<noteq> [] \<and> 0 \<le> offset (heap example_index 0)
   \<and> truncate True example_index 0 3 9 = (example_index, Inl (Error ''End offset overflow''))
   \<and> truncate True example_index 0 5 2 = (example_index, Inl (Error ''Invalid truncation parameters''))
   \<and> markers (constructor example_doc) = []
   \<and> truncate True (constructor example_doc) 0 0 0 = (constructor example_doc, Inl TypeError)"
proof -
  have h: "\<not> (0 \<le> (3::int) \<and> (3::int) \<le> 9 \<and> 9 < int (length (nodeValue (node (heap example_index 0)))))"
    "\<not> (0 \<le> (5::int) \<and> (5::int) \<le> 2 \<and> 2 < int (length (nodeValue (node (heap example_index 0)))))"
    by code_simp+
  have i: "index_inv example_index" "0 \<in> set (markers example_index)"
    "markers example_index \<noteq> []" "0 \<le> offset (heap example_index 0)" by code_simp+
  have c: "\<not> (0 \<le> (0::int) \<and> (0::int) \<le> 0
       \<and> 0 < int (length (nodeValue (node (heap (constructor example_doc) 0)))))"
    "markers (constructor example_doc) = []"
    by (simp_all add: constructor_def)
  from truncate_invalid_arguments_unchanged [OF h(1), of True] i
  have 1: "truncate True example_index 0 3 9 = (example_index, Inl (Error ''End offset overflow''))"
    by simp
  from truncate_invalid_arguments_unchanged [OF h(2), of True] i
  have 2: "truncate True example_index 0 5 2 = (example_index, Inl (Error ''Invalid truncation parameters''))"
    by simp
  from truncate_invalid_arguments_unchanged [OF c(1), of True] c(2)
  have 3: "truncate True (constructor example_doc) 0 0 0 = (constructor example_doc, Inl TypeError)"
    by simp
  from h(1) i 1 2 c(2) 3 show ?thesis by blast
qed

text \<open>
  The Marker handed out by a parsed index, after \<open>dispose()\<close>: \<open>truncate(m, 5, 2)\<close> throws
  the \<open>TypeError\<close> of \<open>indexOf\<close>, not a validation error.
\<close>

theorem truncate_invalid_arguments_disposed_index_TypeError:
  "0 \<in> set (markers example_index)
   \<and> nodeValue (node (heap (dispose example_index) 0)) = ''Positive ''
   \<and> markers (dispose example_index) = [] \<and> (2::int) < 5
   \<and> truncate True (dispose example_index) 0 5 2 = (dispose example_index, Inl TypeError)
   \<and> (\<forall>msg. snd (truncate True (dispose example_index) 0 5 2) \<noteq> Inl (Error msg))"
proof -
  have e: "0 \<in> set (markers example_index)" "nodeValue (node (heap example_index 0)) = ''Positive ''"
    by code_simp+
  have m: "markers (dispose example_index) = []" by (simp add: dispose_def)
  have "truncate True (dispose example_index) 0 5 2 = (dispose example_index, Inl TypeError)"
    by (simp add: truncate_def Let_def indexOf_empty [OF m])
  with m e show ?thesis by (simp add: dispose_def)
qed

section \<open>Properties of the cursor\<close>

lemma lookups_append: "lookups (xs @ ys) = lookups xs @ lookups ys"
  by (induction xs rule: lookups.induct) auto

declare lookups_append [simp]

lemma set_cursor_negative:
  "idx < 0 \<Longrightarrow> set_cursor v idx d s c = (c, Inl (Error (''Invalid cursor index specified: '' @ number_string idx)))"
  by (subst set_cursor.simps) simp

lemma set_cursor_miss_retry:
  "0 \<le> idx \<Longrightarrow> find_marker (Cursor.markers c) idx (iterableQueries c) = None \<Longrightarrow> \<not> d \<Longrightarrow>
   set_cursor v idx d s c = set_cursor v 0 True None (c\<lparr>trace := trace c @ [Find idx (iterableQueries c)]\<rparr>)"
  by (subst set_cursor.simps) (simp add: Let_def)

lemma set_cursor_miss_final:
  "0 \<le> idx \<Longrightarrow> find_marker (Cursor.markers c) idx (iterableQueries c) = None \<Longrightarrow> d \<Longrightarrow>
   set_cursor v idx d s c = (c\<lparr>trace := trace c @ [Find idx (iterableQueries c)]\<rparr>, Inr False)"
  by (subst set_cursor.simps) (simp add: Let_def)

lemma set_cursor_hit:
  assumes "0 \<le> idx" and "find_marker (Cursor.markers c) idx (iterableQueries c) = Some mk"
  shows "\<exists>c'. set_cursor v idx d s c = (c', Inr (index c \<noteq> idx)) \<and> index c' = idx
     \<and> Cursor.markers c' = Cursor.markers c \<and> iterableQueries c' = iterableQueries c \<and> total c' = total c
     \<and> lookups (trace c') = lookups (trace c) @ [idx]"
  using assms
  by (subst set_cursor.simps)
     (auto simp: Let_def clearActive_def split: option.splits outcome.splits)

lemma set_cursor_hit_state:
  assumes "0 \<le> idx" and "find_marker (Cursor.markers c) idx (iterableQueries c) = Some mk"
    and "index c \<noteq> idx"
  shows "set_cursor v idx d None c =
     (c\<lparr>index := idx,
        active := (if elements (highlight mk) = [] then None else Some (highlight mk)),
        trace := trace c @ [Find idx (iterableQueries c)]
          @ (case active c of None \<Rightarrow> [] | Some h \<Rightarrow> [SetInactive h])
          @ (if elements (highlight mk) = [] then []
             else SetActive (highlight mk)
               # (if v (hd (elements (highlight mk))) then []
                  else [ScrollIntoView (hd (elements (highlight mk)))]))
          @ [Emit (Update idx (total c))]\<rparr>, Inr True)"
  using assms
  by (subst set_cursor.simps)
     (auto simp: Let_def clearActive_def split: option.splits)

lemma set_cursor_no_throw:
  assumes "0 \<le> idx"
  shows "\<exists>b. snd (set_cursor v idx d s c) = Inr b"
proof (cases "find_marker (Cursor.markers c) idx (iterableQueries c)")
  case (Some mk)
  from set_cursor_hit [OF assms Some, of v d s] show ?thesis by auto
next
  case None
  let ?c0 = "c\<lparr>trace := trace c @ [Find idx (iterableQueries c)]\<rparr>"
  show ?thesis
  proof (cases d)
    case True
    with set_cursor_miss_final [OF assms None, of d v s] show ?thesis by auto
  next
    case False
    have r: "\<exists>b. snd (set_cursor v 0 True None ?c0) = Inr b"
    proof (cases "find_marker (Cursor.markers ?c0) 0 (iterableQueries ?c0)")
      case (Some mk)
      from set_cursor_hit [OF _ Some, of v True None] show ?thesis by auto
    next
      case None
      from set_cursor_miss_final [OF _ None, of True v None] show ?thesis by auto
    qed
    with set_cursor_miss_retry [OF assms None False, of v s] show ?thesis by simp
  qed
qed


text \<open>
  A \<open>scrollTo\<close> function is called whenever the highlight has an element; only the default
  \<open>scrollIntoView\<close> depends on the element being out of view.
\<close>

lemma set_cursor_callback_unconditional:
  assumes "0 \<le> idx" and "find_marker (Cursor.markers c) idx (iterableQueries c) = Some mk"
    and "elements (highlight mk) \<noteq> []"
  shows "ScrollTo (hd (elements (highlight mk))) \<in> set (trace (fst (set_cursor v idx d (Some f) c)))"
    and "(ScrollIntoView (hd (elements (highlight mk))) \<in> set (trace (fst (set_cursor v idx d None c))))
       = (\<not> v (hd (elements (highlight mk))) \<or> ScrollIntoView (hd (elements (highlight mk))) \<in> set (trace c))"
  using assms
  by (subst set_cursor.simps; auto simp: Let_def clearActive_def split: option.splits outcome.splits)+


lemma registry_three:
  "(find_marker (registry_of three_highlights) i None \<noteq> None) = (0 \<le> i \<and> i < 3)"
  by (simp add: registry_of_def selected_def three_highlights_def)

lemma cursor_at_fields:
  assumes "0 \<le> i" "i < 3"
  shows "index (cursor_at i) = i" "Cursor.markers (cursor_at i) = registry_of three_highlights"
    "iterableQueries (cursor_at i) = None" "total (cursor_at i) = 3"
proof -
  let ?n = "new_Cursor (registry_of three_highlights)"
  have n: "Cursor.markers ?n = registry_of three_highlights" "iterableQueries ?n = None" "total ?n = 3"
    by (simp_all add: new_Cursor_def setIterableQueries_def clear_cursor_def update_cursor_def
        clearActive_def Let_def registry_of_def selected_def three_highlights_def)
  from assms registry_three [of i] obtain mk where
    "find_marker (Cursor.markers ?n) i (iterableQueries ?n) = Some mk" using n by auto
  from set_cursor_hit [OF assms(1) this, of "\<lambda>e. True" False None] n
  show "index (cursor_at i) = i" "Cursor.markers (cursor_at i) = registry_of three_highlights"
    "iterableQueries (cursor_at i) = None" "total (cursor_at i) = 3"
    by (auto simp: cursor_at_def)
qed

text \<open>
  C5: for a cursor over a registry that resolves exactly the indexes 0, 1 and 2 (three
  highlights), with no filter and \<open>total = 3\<close>. From index 2, \<open>next\<close> returns and leaves the
  cursor at index 0, by the retry of \<open>set\<close>: the registry is looked up at 3 and then at 0,
  the call is the call of \<open>set(0, true)\<close> after the failed lookup, and the cursor it leaves is
  the old one moved to the highlight at 0 (the active highlight made inactive, the new one
  made active and scrolled into view if it has elements, \<open>update(0, 3)\<close> emitted). From index
  0, \<open>prev\<close> returns and leaves the cursor at index 2 after the one lookup at 2, moved to the
  highlight at 2 in the same way. And for any cursor with \<open>total = 0\<close>, \<open>prev\<close> changes
  nothing.
\<close>

theorem cursor_wraparound:
  assumes "\<forall>i. (find_marker (Cursor.markers c) i None \<noteq> None) = (0 \<le> i \<and> i < 3)"
    and "iterableQueries c = None" and "total c = 3"
  shows "(index c = 2 \<longrightarrow>
            snd (next_cursor v c) = Inr () \<and> index (fst (next_cursor v c)) = 0
          \<and> lookups (trace (fst (next_cursor v c))) = lookups (trace c) @ [3, 0]
          \<and> next_cursor v c
              = (fst (set_cursor v 0 True None (c\<lparr>trace := trace c @ [Find 3 None]\<rparr>)), Inr ())
          \<and> (\<exists>mk. find_marker (Cursor.markers c) 0 None = Some mk
                \<and> fst (next_cursor v c) =
                   c\<lparr>index := 0,
                     active := (if elements (highlight mk) = [] then None else Some (highlight mk)),
                     trace := trace c @ [Find 3 None, Find 0 None]
                       @ (case active c of None \<Rightarrow> [] | Some h \<Rightarrow> [SetInactive h])
                       @ (if elements (highlight mk) = [] then []
                          else SetActive (highlight mk)
                            # (if v (hd (elements (highlight mk))) then []
                               else [ScrollIntoView (hd (elements (highlight mk)))]))
                       @ [Emit (Update 0 3)]\<rparr>))
     \<and> (index c = 0 \<longrightarrow>
            snd (prev_cursor v c) = Inr () \<and> index (fst (prev_cursor v c)) = 2
          \<and> lookups (trace (fst (prev_cursor v c))) = lookups (trace c) @ [2]
          \<and> (\<exists>mk. find_marker (Cursor.markers c) 2 None = Some mk
                \<and> fst (prev_cursor v c) =
                   c\<lparr>index := 2,
                     active := (if elements (highlight mk) = [] then None else Some (highlight mk)),
                     trace := trace c @ [Find 2 None]
                       @ (case active c of None \<Rightarrow> [] | Some h \<Rightarrow> [SetInactive h])
                       @ (if elements (highlight mk) = [] then []
                          else SetActive (highlight mk)
                            # (if v (hd (elements (highlight mk))) then []
                               else [ScrollIntoView (hd (elements (highlight mk)))]))
                       @ [Emit (Update 2 3)]\<rparr>))
     \<and> (total c' = 0 \<longrightarrow> prev_cursor v c' = (c', Inr ()))"
proof -
  let ?c0 = "c\<lparr>trace := trace c @ [Find 3 None]\<rparr>"
  from assms(1) have f3: "find_marker (Cursor.markers c) 3 (iterableQueries c) = None"
    and f0: "\<exists>mk. find_marker (Cursor.markers c) 0 None = Some mk"
    and f2: "\<exists>mk. find_marker (Cursor.markers c) 2 None = Some mk"
    using assms(2) by auto
  have nxt: "snd (next_cursor v c) = Inr () \<and> index (fst (next_cursor v c)) = 0
          \<and> lookups (trace (fst (next_cursor v c))) = lookups (trace c) @ [3, 0]
          \<and> next_cursor v c = (fst (set_cursor v 0 True None ?c0), Inr ())
          \<and> (\<exists>mk. find_marker (Cursor.markers c) 0 None = Some mk
                \<and> fst (next_cursor v c) =
                   c\<lparr>index := 0,
                     active := (if elements (highlight mk) = [] then None else Some (highlight mk)),
                     trace := trace c @ [Find 3 None, Find 0 None]
                       @ (case active c of None \<Rightarrow> [] | Some h \<Rightarrow> [SetInactive h])
                       @ (if elements (highlight mk) = [] then []
                          else SetActive (highlight mk)
                            # (if v (hd (elements (highlight mk))) then []
                               else [ScrollIntoView (hd (elements (highlight mk)))]))
                       @ [Emit (Update 0 3)]\<rparr>)"
    if i: "index c = 2"
  proof -
    from f0 obtain mk where mk: "find_marker (Cursor.markers c) 0 None = Some mk" ..
    then have mk0: "find_marker (Cursor.markers ?c0) 0 (iterableQueries ?c0) = Some mk"
      using assms(2) by simp
    have r: "set_cursor v 3 False None c = set_cursor v 0 True None ?c0"
      using set_cursor_miss_retry [OF _ f3, of False v None] assms(2) by simp
    have s: "set_cursor v 0 True None ?c0 =
       (c\<lparr>index := 0,
          active := (if elements (highlight mk) = [] then None else Some (highlight mk)),
          trace := trace c @ [Find 3 None, Find 0 None]
            @ (case active c of None \<Rightarrow> [] | Some h \<Rightarrow> [SetInactive h])
            @ (if elements (highlight mk) = [] then []
               else SetActive (highlight mk)
                 # (if v (hd (elements (highlight mk))) then []
                    else [ScrollIntoView (hd (elements (highlight mk)))]))
            @ [Emit (Update 0 3)]\<rparr>, Inr True)"
      using set_cursor_hit_state [OF _ mk0, of v True] i assms(2,3) by simp
    have n: "next_cursor v c = (fst (set_cursor v 0 True None ?c0), Inr ())"
      using i r s by (simp add: next_cursor_def)
    have l: "lookups (trace (fst (next_cursor v c))) = lookups (trace c) @ [3, 0]"
      unfolding n s by (auto split: option.splits)
    from n s l mk show ?thesis by auto
  qed
  have prv: "snd (prev_cursor v c) = Inr () \<and> index (fst (prev_cursor v c)) = 2
          \<and> lookups (trace (fst (prev_cursor v c))) = lookups (trace c) @ [2]
          \<and> (\<exists>mk. find_marker (Cursor.markers c) 2 None = Some mk
                \<and> fst (prev_cursor v c) =
                   c\<lparr>index := 2,
                     active := (if elements (highlight mk) = [] then None else Some (highlight mk)),
                     trace := trace c @ [Find 2 None]
                       @ (case active c of None \<Rightarrow> [] | Some h \<Rightarrow> [SetInactive h])
                       @ (if elements (highlight mk) = [] then []
                          else SetActive (highlight mk)
                            # (if v (hd (elements (highlight mk))) then []
                               else [ScrollIntoView (hd (elements (highlight mk)))]))
                       @ [Emit (Update 2 3)]\<rparr>)"
    if i: "index c = 0"
  proof -
    from f2 obtain mk where mk: "find_marker (Cursor.markers c) 2 None = Some mk" ..
    then have mk2: "find_marker (Cursor.markers c) 2 (iterableQueries c) = Some mk"
      using assms(2) by simp
    have s: "set_cursor v 2 False None c =
       (c\<lparr>index := 2,
          active := (if elements (highlight mk) = [] then None else Some (highlight mk)),
          trace := trace c @ [Find 2 None]
            @ (case active c of None \<Rightarrow> [] | Some h \<Rightarrow> [SetInactive h])
            @ (if elements (highlight mk) = [] then []
               else SetActive (highlight mk)
                 # (if v (hd (elements (highlight mk))) then []
                    else [ScrollIntoView (hd (elements (highlight mk)))]))
            @ [Emit (Update 2 3)]\<rparr>, Inr True)"
      using set_cursor_hit_state [OF _ mk2, of v False] i assms(2,3) by simp
    have n: "prev_cursor v c = (fst (set_cursor v 2 False None c), Inr ())"
      using i s assms(3) by (simp add: prev_cursor_def)
    have l: "lookups (trace (fst (prev_cursor v c))) = lookups (trace c) @ [2]"
      unfolding n s by (auto split: option.splits)
    from n s l mk show ?thesis by auto
  qed
  have "prev_cursor v c' = (c', Inr ())" if "total c' = 0"
    using that by (simp add: prev_cursor_def)
  with nxt prv show ?thesis by blast
qed

theorem cursor_wraparound_witness:
  "(\<forall>i. (find_marker (Cursor.markers (cursor_at 2)) i None \<noteq> None) = (0 \<le> i \<and> i < 3))
   \<and> iterableQueries (cursor_at 2) = None \<and> total (cursor_at 2) = 3 \<and> index (cursor_at 2) = 2
   \<and> index (fst (next_cursor (\<lambda>e. True) (cursor_at 2))) = 0
   \<and> lookups (trace (fst (next_cursor (\<lambda>e. True) (cursor_at 2)))) = [2, 3, 0]
   \<and> active (fst (next_cursor (\<lambda>e. True) (cursor_at 2))) = Some (snd (three_highlights ! 0))
   \<and> (\<forall>i. (find_marker (Cursor.markers (cursor_at 0)) i None \<noteq> None) = (0 \<le> i \<and> i < 3))
   \<and> iterableQueries (cursor_at 0) = None \<and> total (cursor_at 0) = 3 \<and> index (cursor_at 0) = 0
   \<and> index (fst (prev_cursor (\<lambda>e. True) (cursor_at 0))) = 2
   \<and> lookups (trace (fst (prev_cursor (\<lambda>e. True) (cursor_at 0)))) = [0, 2]
   \<and> active (fst (prev_cursor (\<lambda>e. True) (cursor_at 0))) = Some (snd (three_highlights ! 2))
   \<and> total (new_Cursor (registry_of [])) = 0
   \<and> prev_cursor (\<lambda>e. True) (new_Cursor (registry_of [])) = (new_Cursor (registry_of []), Inr ())"
proof -
  have h2: "\<forall>i. (find_marker (Cursor.markers (cursor_at 2)) i None \<noteq> None) = (0 \<le> i \<and> i < 3)"
    and h0: "\<forall>i. (find_marker (Cursor.markers (cursor_at 0)) i None \<noteq> None) = (0 \<le> i \<and> i < 3)"
    using registry_three by (simp_all add: cursor_at_fields)
  have z: "total (new_Cursor (registry_of [])) = 0"
    by (simp add: new_Cursor_def setIterableQueries_def clear_cursor_def update_cursor_def
        clearActive_def Let_def registry_of_def selected_def)
  have f2: "index (cursor_at 2) = 2" "iterableQueries (cursor_at 2) = None" "total (cursor_at 2) = 3"
    and f0: "index (cursor_at 0) = 0" "iterableQueries (cursor_at 0) = None" "total (cursor_at 0) = 3"
    by (simp_all add: cursor_at_fields)
  have t: "lookups (trace (cursor_at 2)) = [2]" "lookups (trace (cursor_at 0)) = [0]"
    by code_simp+
  have a: "active (fst (next_cursor (\<lambda>e. True) (cursor_at 2))) = Some (snd (three_highlights ! 0))"
    "active (fst (prev_cursor (\<lambda>e. True) (cursor_at 0))) = Some (snd (three_highlights ! 2))"
    by code_simp+
  from cursor_wraparound [OF h2 f2(2,3), of "\<lambda>e. True" "new_Cursor (registry_of [])"] f2(1) z
  have n: "index (fst (next_cursor (\<lambda>e. True) (cursor_at 2))) = 0"
    "lookups (trace (fst (next_cursor (\<lambda>e. True) (cursor_at 2)))) = lookups (trace (cursor_at 2)) @ [3, 0]"
    "prev_cursor (\<lambda>e. True) (new_Cursor (registry_of [])) = (new_Cursor (registry_of []), Inr ())"
    by blast+
  from cursor_wraparound [OF h0 f0(2,3), of "\<lambda>e. True" "new_Cursor (registry_of [])"] f0(1)
  have p: "index (fst (prev_cursor (\<lambda>e. True) (cursor_at 0))) = 2"
    "lookups (trace (fst (prev_cursor (\<lambda>e. True) (cursor_at 0)))) = lookups (trace (cursor_at 0)) @ [2]"
    by blast+
  from h2 h0 f2 f0 z a n p show ?thesis unfolding t by simp
qed


text \<open>
  C6: \<open>set\<close> throws for every negative index, with the cursor unchanged. For a
  non-negative index that the registry does not resolve: when \<open>dontRecurse\<close> is not set, the
  call is the call with index 0 and \<open>dontRecurse\<close> set, it does not throw, and the registry is
  looked up exactly twice (the index, then 0); when \<open>dontRecurse\<close> is set, the result is
  \<open>false\<close> after the one lookup; and when index 0 is not resolved either, the result is
  \<open>false\<close>, with nothing changed but the lookups.
\<close>

theorem set_cursor_negative_index_and_single_retry:
  "(idx < 0 \<longrightarrow> (\<exists>msg. set_cursor v idx d s c = (c, Inl (Error msg))))
   \<and> (0 \<le> idx \<and> find_marker (Cursor.markers c) idx (iterableQueries c) = None \<longrightarrow>
        (\<not> d \<longrightarrow>
           set_cursor v idx d s c
             = set_cursor v 0 True None (c\<lparr>trace := trace c @ [Find idx (iterableQueries c)]\<rparr>)
           \<and> (\<exists>b. snd (set_cursor v idx d s c) = Inr b)
           \<and> lookups (trace (fst (set_cursor v idx d s c))) = lookups (trace c) @ [idx, 0])
      \<and> (d \<longrightarrow>
           set_cursor v idx d s c
             = (c\<lparr>trace := trace c @ [Find idx (iterableQueries c)]\<rparr>, Inr False))
      \<and> (find_marker (Cursor.markers c) 0 (iterableQueries c) = None \<longrightarrow>
           set_cursor v idx d s c
             = (c\<lparr>trace := trace c @
                   (if d then [Find idx (iterableQueries c)]
                    else [Find idx (iterableQueries c), Find 0 (iterableQueries c)])\<rparr>,
                Inr False)))"
proof -
  let ?c0 = "c\<lparr>trace := trace c @ [Find idx (iterableQueries c)]\<rparr>"
  have neg: "\<exists>msg. set_cursor v idx d s c = (c, Inl (Error msg))" if "idx < 0"
    using set_cursor_negative [OF that] by blast
  have retry: "set_cursor v idx d s c = set_cursor v 0 True None ?c0
      \<and> (\<exists>b. snd (set_cursor v idx d s c) = Inr b)
      \<and> lookups (trace (fst (set_cursor v idx d s c))) = lookups (trace c) @ [idx, 0]"
    if i: "0 \<le> idx" and f: "find_marker (Cursor.markers c) idx (iterableQueries c) = None" and d: "\<not> d"
  proof -
    have e: "set_cursor v idx d s c = set_cursor v 0 True None ?c0"
      by (rule set_cursor_miss_retry [OF i f d])
    have "lookups (trace (fst (set_cursor v 0 True None ?c0))) = lookups (trace c) @ [idx, 0]"
    proof (cases "find_marker (Cursor.markers ?c0) 0 (iterableQueries ?c0)")
      case None
      from set_cursor_miss_final [OF _ None, of True v None] show ?thesis by simp
    next
      case (Some mk)
      from set_cursor_hit [OF _ Some, of v True None] show ?thesis by auto
    qed
    with e set_cursor_no_throw [OF i, of v d s c] show ?thesis by simp
  qed
  have final: "set_cursor v idx d s c = (?c0, Inr False)"
    if "0 \<le> idx" and "find_marker (Cursor.markers c) idx (iterableQueries c) = None" and "d"
    using set_cursor_miss_final [OF that] .
  have both: "set_cursor v idx d s c
      = (c\<lparr>trace := trace c @ (if d then [Find idx (iterableQueries c)]
              else [Find idx (iterableQueries c), Find 0 (iterableQueries c)])\<rparr>, Inr False)"
    if i: "0 \<le> idx" and f: "find_marker (Cursor.markers c) idx (iterableQueries c) = None"
      and z: "find_marker (Cursor.markers c) 0 (iterableQueries c) = None"
  proof (cases d)
    case True
    with set_cursor_miss_final [OF i f True] show ?thesis by simp
  next
    case False
    have "find_marker (Cursor.markers ?c0) 0 (iterableQueries ?c0) = None" using z by simp
    from set_cursor_miss_final [OF _ this, of True v None] set_cursor_miss_retry [OF i f False, of v s]
    show ?thesis using False by simp
  qed
  from neg retry final both show ?thesis by blast
qed

theorem set_cursor_negative_index_and_single_retry_witness:
  "(- 1::int) < 0
   \<and> (\<exists>msg. set_cursor (\<lambda>e. True) (- 1) False None (cursor_at 2) = (cursor_at 2, Inl (Error msg)))
   \<and> (0::int) \<le> 7
   \<and> find_marker (Cursor.markers (cursor_at 2)) 7 (iterableQueries (cursor_at 2)) = None
   \<and> lookups (trace (fst (set_cursor (\<lambda>e. True) 7 False None (cursor_at 2))))
       = lookups (trace (cursor_at 2)) @ [7, 0]
   \<and> set_cursor (\<lambda>e. True) 7 True None (cursor_at 2)
       = ((cursor_at 2)\<lparr>trace := trace (cursor_at 2) @ [Find 7 (iterableQueries (cursor_at 2))]\<rparr>, Inr False)
   \<and> find_marker (Cursor.markers (new_Cursor (registry_of []))) 0 (iterableQueries (new_Cursor (registry_of []))) = None
   \<and> find_marker (Cursor.markers (new_Cursor (registry_of []))) 4 (iterableQueries (new_Cursor (registry_of []))) = None
   \<and> snd (set_cursor (\<lambda>e. True) 4 False None (new_Cursor (registry_of []))) = Inr False"
proof -
  have f7: "find_marker (Cursor.markers (cursor_at 2)) 7 (iterableQueries (cursor_at 2)) = None"
    using registry_three [of 7] by (simp add: cursor_at_fields)
  have fe: "find_marker (Cursor.markers (new_Cursor (registry_of []))) i (iterableQueries (new_Cursor (registry_of []))) = None" for i
    by (simp add: new_Cursor_def setIterableQueries_def clear_cursor_def update_cursor_def
        clearActive_def Let_def registry_of_def selected_def)
  have 1: "\<exists>msg. set_cursor (\<lambda>e. True) (- 1) False None (cursor_at 2) = (cursor_at 2, Inl (Error msg))"
    using set_cursor_negative_index_and_single_retry [of "- 1" "\<lambda>e. True" False None "cursor_at 2"]
    by simp
  have 2: "lookups (trace (fst (set_cursor (\<lambda>e. True) 7 False None (cursor_at 2))))
       = lookups (trace (cursor_at 2)) @ [7, 0]"
    using set_cursor_negative_index_and_single_retry [of 7 "\<lambda>e. True" False None "cursor_at 2"] f7
    by auto
  have 3: "set_cursor (\<lambda>e. True) 7 True None (cursor_at 2)
       = ((cursor_at 2)\<lparr>trace := trace (cursor_at 2) @ [Find 7 (iterableQueries (cursor_at 2))]\<rparr>, Inr False)"
    using set_cursor_negative_index_and_single_retry [of 7 "\<lambda>e. True" True None "cursor_at 2"] f7
    by simp
  have "set_cursor (\<lambda>e. True) 4 False None (new_Cursor (registry_of []))
       = ((new_Cursor (registry_of []))\<lparr>trace := trace (new_Cursor (registry_of [])) @
            (if False then [Find 4 (iterableQueries (new_Cursor (registry_of [])))]
             else [Find 4 (iterableQueries (new_Cursor (registry_of []))),
                   Find 0 (iterableQueries (new_Cursor (registry_of [])))])\<rparr>, Inr False)"
    using set_cursor_negative_index_and_single_retry [of 4 "\<lambda>e. True" False None "new_Cursor (registry_of [])"]
      fe [of 0] fe [of 4]
    by auto
  then have 4: "snd (set_cursor (\<lambda>e. True) 4 False None (new_Cursor (registry_of []))) = Inr False"
    by simp
  from 1 2 3 4 f7 fe [of 0] fe [of 4] show ?thesis by simp
qed

text \<open>
  C7 (the code departs from it): the \<open>scrollTo\<close> callback is to be called only when the
  first element of the highlight is not in view. With every element in view, \<open>set(0, false,
  scrollTo)\<close> on a cursor over one highlight with the element 7 calls \<open>scrollTo(7)\<close>. (In
  general \<open>set_cursor_callback_unconditional\<close>; that an exception of the callback does not
  leave \<open>set\<close> is \<open>set_cursor_no_throw\<close>.)
\<close>

theorem set_cursor_callback_called_in_view:
  "set_cursor (\<lambda>e. True) 0 False (Some (\<lambda>e. Returns)) (new_Cursor (registry_of one_highlight))
   = ((new_Cursor (registry_of one_highlight))
        \<lparr>index := 0, active := Some (snd (hd one_highlight)),
         trace := [Emit (Update (- 1) 1), Emit Clear, Emit (SetIterable None), Find 0 None,
                   SetActive (snd (hd one_highlight)), ScrollTo 7, Emit (Update 0 1)]\<rparr>,
      Inr True)"
  by (subst set_cursor.simps)
     (simp add: new_Cursor_def setIterableQueries_def clear_cursor_def update_cursor_def
        clearActive_def Let_def registry_of_def selected_def one_highlight_def)


section \<open>Properties of the renderer\<close>

text \<open>
  C4: on a well-formed index, for a range that starts in a text node \<open>t1\<close> at offset \<open>a\<close> and
  ends in a text node \<open>t3\<close> at offset \<open>b\<close>, where \<open>t1\<close>, \<open>t2\<close>, \<open>t3\<close> are children of one
  element \<open>p\<close> with no text between them: \<open>surround\<close> returns exactly three elements;
  afterwards they are three \<open>span\<close> children of \<open>p\<close>, in this order, each in the place of its
  node (with the unwrapped rest of \<open>t1\<close> before and of \<open>t3\<close> after them, if any); their text
  contents together are the text from offset \<open>a\<close> of \<open>t1\<close>, all of \<open>t2\<close>, and the text of
  \<open>t3\<close> up to offset \<open>b\<close>; and \<open>decorate\<close> has been called once, with the three elements.
\<close>

theorem surround_three_text_nodes:
  assumes inv: "tc_inv (content rd)"
    and par: "find_node p (root (content rd))
        = Some (Element p tag (A @ [Text t1] @ M1 @ [Text t2] @ M2 @ [Text t3] @ B))"
    and between: "concat (map leaves M1) = []" "concat (map leaves M2) = []"
    and r1: "r1 \<in> set (markers (content rd))" and n1: "node (heap (content rd) r1) = t1"
    and r3: "r3 \<in> set (markers (content rd))" and n3: "node (heap (content rd) r3) = t3"
    and rng: "hrange h = \<lparr>range_start = \<lparr>marker = r1, offset = a\<rparr>,
                          range_end = \<lparr>marker = r3, offset = b\<rparr>\<rparr>"
    and a: "0 \<le> a" "a < int (length (nodeValue t1))"
    and b: "0 \<le> b" "b < int (length (nodeValue t3))"
  shows "\<exists>rd' e1 e2 e3 m1 m3 before after.
       surround dev h rd = Some (rd', clearStartOffset h, Inr [e1, e2, e3])
     \<and> find_node p (root (content rd'))
         = Some (Element p tag (A @ map Text before
              @ [Element e1 ''SPAN'' [Text m1]] @ M1 @ [Element e2 ''SPAN'' [Text t2]] @ M2
              @ [Element e3 ''SPAN'' [Text m3]]
              @ map Text after @ B))
     \<and> concat (map textContent [Element e1 ''SPAN'' [Text m1], Element e2 ''SPAN'' [Text t2],
                 Element e3 ''SPAN'' [Text m3]])
         = drop (nat a) (nodeValue t1) @ nodeValue t2 @ take (nat b + 1) (nodeValue t3)
     \<and> (a = 0 \<longrightarrow> before = [])
     \<and> (b = int (length (nodeValue t3)) - 1 \<longrightarrow> after = [])
     \<and> decorated rd' = decorated rd @ [([e1, e2, e3], clearStartOffset h)]
     \<and> tc_inv (content rd')"
proof -
  let ?tc = "content rd"
  let ?len1 = "int (length (nodeValue (node (heap ?tc r1))))"
  from inv have d: "distinct (ids (root ?tc))" by (simp add: tc_inv_def dom_ok_def)
  \<comment> \<open>the three nodes follow each other in document order\<close>
  from find_node_leaves(1) [OF par] obtain l1 l2 where
    "leaves (root ?tc)
       = l1 @ leaves (Element p tag (A @ [Text t1] @ M1 @ [Text t2] @ M2 @ [Text t3] @ B)) @ l2"
    by blast
  then have "leaves (root ?tc)
      = l1 @ concat (map leaves A) @ t1 # concat (map leaves M1) @ t2 # concat (map leaves M2)
          @ t3 # concat (map leaves B) @ l2"
    by simp
  then have lv: "leaves (root ?tc)
      = (l1 @ concat (map leaves A)) @ t1 # t2 # t3 # (concat (map leaves B) @ l2)"
    unfolding between by simp
  define L1 where "L1 = l1 @ concat (map leaves A)"
  define L2 where "L2 = concat (map leaves B) @ l2"
  from distinct_leaf_ids [OF d] have dl: "distinct (map nid (L1 @ t1 # t2 # t3 # L2))"
    by (simp add: lv L1_def L2_def)
  then have ne: "nid t1 \<noteq> nid t2" "nid t1 \<noteq> nid t3" "nid t2 \<noteq> nid t3"
    and "nid t1 \<notin> nid ` set L1"
    by auto
  then have L1: "\<And>x. x \<in> set L1 \<Longrightarrow> nid x \<noteq> nid t1"
    by (metis imageI)
  have "dropWhile (\<lambda>t. nid t \<noteq> nid t1) (L1 @ t1 # t2 # t3 # L2) = t1 # t2 # t3 # L2"
    using L1 by (simp add: dropWhile_append2)
  then have tna: "text_nodes_after t1 (root ?tc) = t2 # t3 # L2"
    by (simp add: text_nodes_after_def lv L1_def L2_def)
  have col: "collect_until t3 (text_nodes_after t1 (root ?tc)) = Some [t2]"
    using ne by (simp add: tna)
  have t2in: "t2 \<in> set (leaves (root ?tc))" by (simp add: lv)
  have r13: "r3 \<noteq> r1" using n1 n3 ne by auto
  \<comment> \<open>the start segment\<close>
  have a1: "a \<le> ?len1 - 1" "?len1 - 1 < ?len1" using a n1 by simp_all
  have par1: "find_node p (root ?tc)
      = Some (Element p tag (A @ Text (node (heap ?tc r1)) # (M1 @ [Text t2] @ M2 @ [Text t3] @ B)))"
    using par n1 by simp
  from surround_range_ok [OF inv r1 a(1) a1, where eopt = None and dev = dev and k = a] obtain tcA e1 m1 before af1 where
    sA: "surround_range dev \<lparr>marker = r1, offset = a\<rparr> a None ?tc = (tcA, Inr e1)"
    and invA: "tc_inv tcA"
    and nv1: "nodeValue m1 = substr (nodeValue (node (heap ?tc r1))) a (?len1 - 1 - a + 1)"
    and subA: "set (markers ?tc) \<subseteq> set (markers tcA)"
    and othA: "\<forall>q\<in>set (markers ?tc). q \<noteq> r1 \<longrightarrow> heap tcA q = heap ?tc q"
    and keepA: "\<forall>y\<in>set (leaves (root ?tc)). y \<noteq> node (heap ?tc r1) \<longrightarrow> y \<in> set (leaves (root tcA))"
    and bz: "a = 0 \<longrightarrow> before = []"
    and az1: "?len1 - 1 = ?len1 - 1 \<longrightarrow> af1 = []"
    and parA: "\<And>p tag A B. find_node p (root ?tc) = Some (Element p tag (A @ Text (node (heap ?tc r1)) # B)) \<Longrightarrow>
           find_node p (root tcA)
             = Some (Element p tag (A @ map Text before @ [Element e1 ''SPAN'' [Text m1]] @ map Text af1 @ B))"
    by blast
  from parA [OF par1] az1 have pA: "find_node p (root tcA)
      = Some (Element p tag ((A @ map Text before @ [Element e1 ''SPAN'' [Text m1]] @ M1)
          @ Text t2 # (M2 @ [Text t3] @ B)))"
    by simp
  have v1: "nodeValue m1 = drop (nat a) (nodeValue t1)"
  proof -
    have "substr (nodeValue t1) a (int (length (nodeValue t1)) - a)
        = take (nat (int (length (nodeValue t1)) - a)) (drop (nat a) (nodeValue t1))"
      using a by (intro substr_take_drop) simp_all
    also have "\<dots> = drop (nat a) (nodeValue t1)" using a by simp
    finally show ?thesis using nv1 n1 by simp
  qed
  have t2A: "t2 \<in> set (leaves (root tcA))" using keepA t2in n1 ne by auto
  have r3A: "r3 \<in> set (markers tcA)" using subA r3 by auto
  have h3A: "heap tcA r3 = heap ?tc r3" using othA r3 r13 by simp
  \<comment> \<open>the node in between\<close>
  from surroundWhole_each_single [OF invA t2A] obtain tcB where
    sB: "surroundWhole_each [t2] tcA = (tcB, Inr [next_node tcA])"
    and invB: "tc_inv tcB" and mB: "markers tcB = markers tcA" and hB: "heap tcB = heap tcA"
    and parB: "\<And>p tag A B. find_node p (root tcA) = Some (Element p tag (A @ Text t2 # B)) \<Longrightarrow>
           find_node p (root tcB)
             = Some (Element p tag (A @ [Element (next_node tcA) ''SPAN'' [Text t2]] @ B))"
    by blast
  define e2 where "e2 = next_node tcA"
  from parB [OF pA] have pB: "find_node p (root tcB)
      = Some (Element p tag ((A @ map Text before @ [Element e1 ''SPAN'' [Text m1]] @ M1
            @ [Element e2 ''SPAN'' [Text t2]] @ M2)
          @ Text (node (heap tcB r3)) # B))"
    using hB h3A n3 by (simp add: e2_def)
  \<comment> \<open>the end segment\<close>
  have r3B: "r3 \<in> set (markers tcB)" using r3A mB by simp
  have n3B: "node (heap tcB r3) = t3" using hB h3A n3 by simp
  have b3: "b < int (length (nodeValue (node (heap tcB r3))))" using b n3B by simp
  from surround_range_ok [OF invB r3B _ b(1) b3, where eopt = "Some b" and dev = dev and k = b] obtain tcC e3 m3 bf3 after where
    sC: "surround_range dev \<lparr>marker = r3, offset = b\<rparr> 0 (Some b) tcB = (tcC, Inr e3)"
    and invC: "tc_inv tcC"
    and nv3: "nodeValue m3 = substr (nodeValue (node (heap tcB r3))) 0 (b - 0 + 1)"
    and bz3: "(0::int) = 0 \<longrightarrow> bf3 = []"
    and az: "b = int (length (nodeValue (node (heap tcB r3)))) - 1 \<longrightarrow> after = []"
    and parC: "\<And>p tag A B. find_node p (root tcB) = Some (Element p tag (A @ Text (node (heap tcB r3)) # B)) \<Longrightarrow>
           find_node p (root tcC)
             = Some (Element p tag (A @ map Text bf3 @ [Element e3 ''SPAN'' [Text m3]] @ map Text after @ B))"
    by blast
  from parC [OF pB] bz3 have pC: "find_node p (root tcC)
      = Some (Element p tag (A @ map Text before
           @ [Element e1 ''SPAN'' [Text m1]] @ M1 @ [Element e2 ''SPAN'' [Text t2]] @ M2
           @ [Element e3 ''SPAN'' [Text m3]]
           @ map Text after @ B))"
    by simp
  have v3: "nodeValue m3 = take (nat b + 1) (nodeValue t3)"
  proof -
    have "substr (nodeValue t3) 0 (b + 1) = take (nat (b + 1)) (drop (nat 0) (nodeValue t3))"
      using b by (intro substr_take_drop) simp_all
    moreover have "nat (b + 1) = nat b + 1" using b by simp
    ultimately show ?thesis using nv3 n3B by simp
  qed
  \<comment> \<open>the call as a whole\<close>
  define rd' where "rd' = rd\<lparr>content := tcC,
      decorated := decorated rd @ [([e1, e2, e3], clearStartOffset h)]\<rparr>"
  have res: "surround dev h rd = Some (rd', clearStartOffset h, Inr [e1, e2, e3])"
    using n1 n3 ne col sA sB sC
    by (simp add: surround_def Let_def rng rd'_def e2_def)
  show ?thesis
    using res pC v1 v3 bz az n3B invC
    by (intro exI [of _ rd'] exI [of _ e1] exI [of _ e2] exI [of _ e3] exI [of _ m1] exI [of _ m3]
        exI [of _ before] exI [of _ after])
       (simp add: rd'_def)
qed


theorem surround_three_text_nodes_witness:
  "tc_inv (content three_nodes_renderer)
   \<and> find_node 2 (root (content three_nodes_renderer))
       = Some (Element 2 ''P'' ([] @ [Text (TextNode 3 ''Hello '')] @ [Element 4 ''BR'' []]
            @ [Text (TextNode 5 ''big '')] @ [] @ [Text (TextNode 6 ''world!'')] @ []))
   \<and> 1 \<in> set (markers (content three_nodes_renderer))
   \<and> 3 \<in> set (markers (content three_nodes_renderer))
   \<and> (\<exists>rd' e1 e2 e3 m1 m3 before after.
       surround True three_nodes_highlight three_nodes_renderer
         = Some (rd', clearStartOffset three_nodes_highlight, Inr [e1, e2, e3])
     \<and> find_node 2 (root (content rd'))
         = Some (Element 2 ''P'' (map Text before
              @ [Element e1 ''SPAN'' [Text m1], Element 4 ''BR'' [],
                 Element e2 ''SPAN'' [Text (TextNode 5 ''big '')], Element e3 ''SPAN'' [Text m3]]
              @ map Text after))
     \<and> concat (map textContent [Element e1 ''SPAN'' [Text m1],
            Element e2 ''SPAN'' [Text (TextNode 5 ''big '')], Element e3 ''SPAN'' [Text m3]])
         = ''llo big world''
     \<and> decorated rd' = [([e1, e2, e3], clearStartOffset three_nodes_highlight)])
   \<and> map_option (snd \<circ> snd) (surround True three_nodes_highlight three_nodes_renderer)
       = Some (Inr [10, 11, 14])"
proof -
  have e: "is_element three_nodes_doc" "distinct (ids three_nodes_doc)" by code_simp+
  have inv: "tc_inv (content three_nodes_renderer)"
    using parse_tc_inv [OF e, of True] by (simp add: three_nodes_renderer_def)
  have par: "find_node 2 (root (content three_nodes_renderer))
       = Some (Element 2 ''P'' ([] @ [Text (TextNode 3 ''Hello '')] @ [Element 4 ''BR'' []]
            @ [Text (TextNode 5 ''big '')] @ [] @ [Text (TextNode 6 ''world!'')] @ []))"
    by code_simp
  have btw: "concat (map leaves [Element 4 ''BR'' []]) = []" "concat (map leaves []) = []"
    by simp_all
  have m: "1 \<in> set (markers (content three_nodes_renderer))"
    "node (heap (content three_nodes_renderer) 1) = TextNode 3 ''Hello ''"
    "3 \<in> set (markers (content three_nodes_renderer))"
    "node (heap (content three_nodes_renderer) 3) = TextNode 6 ''world!''"
    by code_simp+
  have rng: "hrange three_nodes_highlight = \<lparr>range_start = \<lparr>marker = 1, offset = 2\<rparr>,
                          range_end = \<lparr>marker = 3, offset = 4\<rparr>\<rparr>"
    by (simp add: three_nodes_highlight_def)
  have ev: "map_option (snd \<circ> snd) (surround True three_nodes_highlight three_nodes_renderer)
       = Some (Inr [10, 11, 14])"
    by code_simp
  have dec: "decorated three_nodes_renderer = []" by (simp add: three_nodes_renderer_def)
  have ab: "(0::int) \<le> 2" "2 < int (length (nodeValue (TextNode 3 ''Hello '')))"
    "(0::int) \<le> 4" "4 < int (length (nodeValue (TextNode 6 ''world!'')))"
    by simp_all
  from surround_three_text_nodes [OF inv par btw m rng ab, of True]
  obtain rd' e1 e2 e3 m1 m3 before after where
    "surround True three_nodes_highlight three_nodes_renderer
       = Some (rd', clearStartOffset three_nodes_highlight, Inr [e1, e2, e3])"
    "find_node 2 (root (content rd'))
       = Some (Element 2 ''P'' ([] @ map Text before
            @ [Element e1 ''SPAN'' [Text m1]] @ [Element 4 ''BR'' []]
            @ [Element e2 ''SPAN'' [Text (TextNode 5 ''big '')]] @ []
            @ [Element e3 ''SPAN'' [Text m3]]
            @ map Text after @ []))"
    "concat (map textContent [Element e1 ''SPAN'' [Text m1],
          Element e2 ''SPAN'' [Text (TextNode 5 ''big '')], Element e3 ''SPAN'' [Text m3]])
       = drop (nat 2) (nodeValue (TextNode 3 ''Hello '')) @ nodeValue (TextNode 5 ''big '')
          @ take (nat 4 + 1) (nodeValue (TextNode 6 ''world!''))"
    "decorated rd' = decorated three_nodes_renderer @ [([e1, e2, e3], clearStartOffset three_nodes_highlight)]"
    by blast
  moreover have "drop (nat 2) (nodeValue (TextNode 3 ''Hello '')) @ nodeValue (TextNode 5 ''big '')
          @ take (nat 4 + 1) (nodeValue (TextNode 6 ''world!'')) = ''llo big world''"
    by code_simp
  ultimately have "\<exists>rd' e1 e2 e3 m1 m3 before after.
       surround True three_nodes_highlight three_nodes_renderer
         = Some (rd', clearStartOffset three_nodes_highlight, Inr [e1, e2, e3])
     \<and> find_node 2 (root (content rd'))
         = Some (Element 2 ''P'' (map Text before
              @ [Element e1 ''SPAN'' [Text m1], Element 4 ''BR'' [],
                 Element e2 ''SPAN'' [Text (TextNode 5 ''big '')], Element e3 ''SPAN'' [Text m3]]
              @ map Text after))
     \<and> concat (map textContent [Element e1 ''SPAN'' [Text m1],
            Element e2 ''SPAN'' [Text (TextNode 5 ''big '')], Element e3 ''SPAN'' [Text m3]])
         = ''llo big world''
     \<and> decorated rd' = [([e1, e2, e3], clearStartOffset three_nodes_highlight)]"
    unfolding dec
    by (intro exI [of _ rd'] exI [of _ e1] exI [of _ e2] exI [of _ e3] exI [of _ m1] exI [of _ m3]
        exI [of _ before] exI [of _ after]) simp
  with inv par m(1,3) ev show ?thesis by blast
qed

end
